theory Spec2Isabelle
  imports Main "HOL-Library.Word" "HOL-Library.Multiset"
begin

unbundle bit_operations_syntax

section \<open>Status codes (OneWire.h)\<close>

text \<open>
  \<^verbatim>\<open>typedef uint16_t oneWire_status;\<close>  The error macros are plain \<^verbatim>\<open>int\<close> constants;
  a function whose return type is \<^verbatim>\<open>oneWire_status\<close> converts them to 16 bits on return.
\<close>

type_synonym oneWire_status = "16 word"

definition ONE_WIRE_NO_ERROR :: int where
  "ONE_WIRE_NO_ERROR = 0"

definition ONE_WIRE_POSSIBLE_FIFO_OVERFLOW :: int where
  "ONE_WIRE_POSSIBLE_FIFO_OVERFLOW = -1"

definition ONE_WIRE_NOT_ENOUGH_TX_FIFO_SPACE :: int where
  "ONE_WIRE_NOT_ENOUGH_TX_FIFO_SPACE = -2"

definition ONE_WIRE_NOT_ENOUGH_DATA_IN_RX_FIFO :: int where
  "ONE_WIRE_NOT_ENOUGH_DATA_IN_RX_FIFO = -3"

definition ONE_WIRE_READ_CRC_FAILURE :: int where
  "ONE_WIRE_READ_CRC_FAILURE = -4"

definition ONE_WIRE_SEARCH_ROM_FAILURE :: int where
  "ONE_WIRE_SEARCH_ROM_FAILURE = -5"

definition ONE_WIRE_ILLEGAL_DATA_SIZE_REQ :: int where
  "ONE_WIRE_ILLEGAL_DATA_SIZE_REQ = -6"

definition ONE_WIRE_FIFODEPTH :: int where
  "ONE_WIRE_FIFODEPTH = 4"

definition as_status :: "int \<Rightarrow> oneWire_status" where
  "as_status e = word_of_int e"

section \<open>The two hardware queues\<close>

text \<open>
  Modelled from the spec: the FIFO primitives of the Pico SDK (\<^verbatim>\<open>hardware/pio.h\<close>) are not
  among the sources.  The command queue and the response queue are bounded queues of 32-bit
  words, four deep each.  The level functions return \<^verbatim>\<open>uint\<close>.  The coprocessor takes no
  step during a call: a blocking put on a full queue, or a blocking get on an empty one,
  does not return, which is the value \<open>Inl Blocked\<close>.  \<open>Undefined_Behaviour\<close> marks what
  C leaves undefined (a shift by 32 or more, an access outside the caller's array).
\<close>

datatype fault = Blocked | Undefined_Behaviour

record pio_sm =
  tx_fifo :: "32 word list"
  rx_fifo :: "32 word list"

definition PIO_FIFO_DEPTH :: nat where
  "PIO_FIFO_DEPTH = 4"

definition pio_sm_is_tx_fifo_full :: "pio_sm \<Rightarrow> bool" where
  "pio_sm_is_tx_fifo_full s = (PIO_FIFO_DEPTH \<le> length (tx_fifo s))"

definition pio_sm_get_tx_fifo_level :: "pio_sm \<Rightarrow> 32 word" where
  "pio_sm_get_tx_fifo_level s = of_nat (length (tx_fifo s))"

definition pio_sm_get_rx_fifo_level :: "pio_sm \<Rightarrow> 32 word" where
  "pio_sm_get_rx_fifo_level s = of_nat (length (rx_fifo s))"

definition pio_sm_put_blocking :: "32 word \<Rightarrow> pio_sm \<Rightarrow> fault + pio_sm" where
  "pio_sm_put_blocking w s =
     (if length (tx_fifo s) < PIO_FIFO_DEPTH then Inr (s\<lparr>tx_fifo := tx_fifo s @ [w]\<rparr>)
      else Inl Blocked)"

definition pio_sm_get_blocking :: "pio_sm \<Rightarrow> fault + (32 word \<times> pio_sm)" where
  "pio_sm_get_blocking s =
     (case rx_fifo s of
        [] \<Rightarrow> Inl Blocked
      | w # ws \<Rightarrow> Inr (w, s\<lparr>rx_fifo := ws\<rparr>))"

section \<open>Transaction engine (OneWire.c)\<close>

definition oneWire_reset :: "bool \<Rightarrow> pio_sm \<Rightarrow> fault + (oneWire_status \<times> pio_sm)" where
  "oneWire_reset wait s =
     (if \<not> wait \<and> pio_sm_is_tx_fifo_full s
      then Inr (as_status ONE_WIRE_NOT_ENOUGH_TX_FIFO_SPACE, s)
      else case pio_sm_put_blocking 0x00000002 s of
             Inl f \<Rightarrow> Inl f
           | Inr s' \<Rightarrow> Inr (as_status ONE_WIRE_NO_ERROR, s'))"

definition oneWire_wait_for_idle :: "bool \<Rightarrow> pio_sm \<Rightarrow> fault + (oneWire_status \<times> pio_sm)" where
  "oneWire_wait_for_idle wait s =
     (if \<not> wait \<and> pio_sm_is_tx_fifo_full s
      then Inr (as_status ONE_WIRE_NOT_ENOUGH_TX_FIFO_SPACE, s)
      else case pio_sm_put_blocking 0x00000000 s of
             Inl f \<Rightarrow> Inl f
           | Inr s' \<Rightarrow> Inr (as_status ONE_WIRE_NO_ERROR, s'))"

text \<open>\<^verbatim>\<open>(data << 6) + (7<<2) + 0x03\<close>: \<open>data\<close> is promoted to \<^verbatim>\<open>int\<close> before the shift.\<close>

definition oneWire_write_byte ::
  "8 word \<Rightarrow> bool \<Rightarrow> pio_sm \<Rightarrow> fault + (oneWire_status \<times> pio_sm)" where
  "oneWire_write_byte data wait s =
     (if \<not> wait \<and> pio_sm_is_tx_fifo_full s
      then Inr (as_status ONE_WIRE_NOT_ENOUGH_TX_FIFO_SPACE, s)
      else case pio_sm_put_blocking
                  (word_of_int (push_bit 6 (uint data) + push_bit 2 7 + 0x03)) s of
             Inl f \<Rightarrow> Inl f
           | Inr s' \<Rightarrow> Inr (as_status ONE_WIRE_NO_ERROR, s'))"

definition oneWire_write_uint ::
  "16 word \<Rightarrow> bool \<Rightarrow> pio_sm \<Rightarrow> fault + (oneWire_status \<times> pio_sm)" where
  "oneWire_write_uint data wait s =
     (if \<not> wait \<and> pio_sm_is_tx_fifo_full s
      then Inr (as_status ONE_WIRE_NOT_ENOUGH_TX_FIFO_SPACE, s)
      else case pio_sm_put_blocking
                  (word_of_int (push_bit 6 (uint data) + push_bit 2 15 + 0x03)) s of
             Inl f \<Rightarrow> Inl f
           | Inr s' \<Rightarrow> Inr (as_status ONE_WIRE_NO_ERROR, s'))"

text \<open>
  \<^verbatim>\<open>(num_bits-1 << 2) + 1\<close> on \<^verbatim>\<open>uint\<close>; the subtraction binds tighter than the shift.
\<close>

definition oneWire_push_read_cmd ::
  "32 word \<Rightarrow> pio_sm \<Rightarrow> fault + (oneWire_status \<times> pio_sm)" where
  "oneWire_push_read_cmd num_bits s =
     (if num_bits > 32 \<or> num_bits < 1
      then Inr (as_status ONE_WIRE_ILLEGAL_DATA_SIZE_REQ, s)
      else case pio_sm_put_blocking (push_bit 2 (num_bits - 1) + 1) s of
             Inl f \<Rightarrow> Inl f
           | Inr s' \<Rightarrow> Inr (as_status ONE_WIRE_NO_ERROR, s'))"

text \<open>
  \<^verbatim>\<open>oneWire_status r = pio_sm_get_blocking(...); return r >> (32-num_bits);\<close>
  The local \<open>r\<close> has the 16-bit status type, so the response word is cut to its low 16
  bits by the assignment; \<open>r\<close> is then promoted to \<^verbatim>\<open>int\<close> and shifted by the
  \<^verbatim>\<open>uint\<close> amount \<open>32 - num_bits\<close>.
\<close>

definition oneWire_pull_read_data ::
  "32 word \<Rightarrow> pio_sm \<Rightarrow> fault + (32 word \<times> pio_sm)" where
  "oneWire_pull_read_data num_bits s =
     (case pio_sm_get_blocking s of
        Inl f \<Rightarrow> Inl f
      | Inr (w, s') \<Rightarrow>
          (let r = (ucast w :: oneWire_status);
               sh = unat (32 - num_bits)
           in if 32 \<le> sh then Inl Undefined_Behaviour
              else Inr (drop_bit sh (ucast r :: 32 word), s')))"

text \<open>
  The three single-value reads end without a \<^verbatim>\<open>return\<close> statement on the path that has
  pulled the data: control reaches the closing brace and no status value is produced.
  The status is therefore an option, \<open>None\<close> on that path.  The second component is the
  content of \<^verbatim>\<open>*data\<close> after the call.
\<close>

definition oneWire_read_byte ::
  "8 word \<Rightarrow> bool \<Rightarrow> pio_sm \<Rightarrow> fault + (oneWire_status option \<times> 8 word \<times> pio_sm)" where
  "oneWire_read_byte data wait s =
     (if \<not> wait \<and> pio_sm_is_tx_fifo_full s
      then Inr (Some (as_status ONE_WIRE_NOT_ENOUGH_TX_FIFO_SPACE), data, s)
      else case oneWire_push_read_cmd 8 s of
             Inl f \<Rightarrow> Inl f
           | Inr (r, s1) \<Rightarrow>
               (if uint r \<noteq> ONE_WIRE_NO_ERROR then Inr (Some r, data, s1)
                else (case oneWire_pull_read_data 8 s1 of
                        Inl f \<Rightarrow> Inl f
                      | Inr (v, s2) \<Rightarrow> Inr (None, ucast (v AND 0xFF), s2))))"

definition oneWire_read_uint ::
  "16 word \<Rightarrow> bool \<Rightarrow> pio_sm \<Rightarrow> fault + (oneWire_status option \<times> 16 word \<times> pio_sm)" where
  "oneWire_read_uint data wait s =
     (if \<not> wait \<and> pio_sm_is_tx_fifo_full s
      then Inr (Some (as_status ONE_WIRE_NOT_ENOUGH_TX_FIFO_SPACE), data, s)
      else case oneWire_push_read_cmd 16 s of
             Inl f \<Rightarrow> Inl f
           | Inr (r, s1) \<Rightarrow>
               (if uint r \<noteq> ONE_WIRE_NO_ERROR then Inr (Some r, data, s1)
                else (case oneWire_pull_read_data 16 s1 of
                        Inl f \<Rightarrow> Inl f
                      | Inr (v, s2) \<Rightarrow> Inr (None, ucast (v AND 0xFFFF), s2))))"

definition oneWire_read_ulong ::
  "32 word \<Rightarrow> bool \<Rightarrow> pio_sm \<Rightarrow> fault + (oneWire_status option \<times> 32 word \<times> pio_sm)" where
  "oneWire_read_ulong data wait s =
     (if \<not> wait \<and> pio_sm_is_tx_fifo_full s
      then Inr (Some (as_status ONE_WIRE_NOT_ENOUGH_TX_FIFO_SPACE), data, s)
      else case oneWire_push_read_cmd 32 s of
             Inl f \<Rightarrow> Inl f
           | Inr (r, s1) \<Rightarrow>
               (if uint r \<noteq> ONE_WIRE_NO_ERROR then Inr (Some r, data, s1)
                else (case oneWire_pull_read_data 32 s1 of
                        Inl f \<Rightarrow> Inl f
                      | Inr (v, s2) \<Rightarrow> Inr (None, v, s2))))"

subsection \<open>CRC check\<close>

text \<open>
  The inner loop over the eight bits of one byte.  In \<^verbatim>\<open>crc = crc >> 1 | crc << 7\<close> the
  operand is promoted to \<^verbatim>\<open>int\<close>; the assignment cuts the result back to eight bits.
\<close>

function crc_bits :: "int \<Rightarrow> 8 word \<Rightarrow> 8 word \<Rightarrow> 8 word" where
  "crc_bits j crc t =
     (if j < 8 then
        (let crc1 = crc XOR (t AND 1);
             pxor = (if crc1 AND 1 \<noteq> 0 then 0x18 else 0);
             crc2 = crc1 XOR pxor;
             crc3 = (ucast (drop_bit 1 (ucast crc2 :: 32 word) OR
                            push_bit 7 (ucast crc2 :: 32 word)) :: 8 word);
             t1 = drop_bit 1 t
         in crc_bits (j + 1) crc3 t1)
      else crc)"
  by pat_completeness auto
termination
  by (relation "measure (\<lambda>(j, crc, t). nat (8 - j))") auto

declare crc_bits.simps [simp del]

text \<open>The outer loop over the bytes \<open>a[0] .. a[len-1]\<close>.\<close>

function crc_bytes :: "int \<Rightarrow> int \<Rightarrow> 8 word list \<Rightarrow> 8 word \<Rightarrow> fault + 8 word" where
  "crc_bytes i len a crc =
     (if i < len then
        (if 0 \<le> i \<and> nat i < length a
         then crc_bytes (i + 1) len a (crc_bits 0 crc (a ! nat i))
         else Inl Undefined_Behaviour)
      else Inr crc)"
  by pat_completeness auto
termination
  by (relation "measure (\<lambda>(i, len, a, crc). nat (len - i))") auto

declare crc_bytes.simps [simp del]

definition oneWire_CRC :: "8 word list \<Rightarrow> int \<Rightarrow> fault + oneWire_status" where
  "oneWire_CRC a len =
     (case crc_bytes 0 len a 0 of
        Inl f \<Rightarrow> Inl f
      | Inr crc \<Rightarrow>
          Inr (if crc \<noteq> 0 then as_status ONE_WIRE_READ_CRC_FAILURE
               else as_status ONE_WIRE_NO_ERROR))"

subsection \<open>Batched byte reads\<close>

text \<open>The loop \<^verbatim>\<open>for (i = 0; i <= num-4; i += 4)\<close> of the push side; it returns the final \<open>i\<close>.\<close>

function push_read_words :: "int \<Rightarrow> int \<Rightarrow> pio_sm \<Rightarrow> fault + (int \<times> pio_sm)" where
  "push_read_words i num s =
     (if i \<le> num - 4 then
        (case pio_sm_put_blocking (word_of_int (push_bit 2 31 + 1)) s of
           Inl f \<Rightarrow> Inl f
         | Inr s' \<Rightarrow> push_read_words (i + 4) num s')
      else Inr (i, s))"
  by pat_completeness auto
termination
  by (relation "measure (\<lambda>(i, num, s). nat (num - i))") auto

declare push_read_words.simps [simp del]

text \<open>
  In the space check \<open>num_pushes\<close> is an \<^verbatim>\<open>int\<close> and the level a \<^verbatim>\<open>uint\<close>: the
  subtraction, the product and the comparison are all done on unsigned 32-bit values.
\<close>

definition oneWire_push_read_bytes_cmd ::
  "int \<Rightarrow> bool \<Rightarrow> pio_sm \<Rightarrow> fault + (oneWire_status \<times> pio_sm)" where
  "oneWire_push_read_bytes_cmd num wait s =
     (if num > 16 then Inr (as_status ONE_WIRE_POSSIBLE_FIFO_OVERFLOW, s)
      else
        let num_pushes = num + 3 in
        if \<not> wait \<and>
           (word_of_int num_pushes :: 32 word) >
             word_of_int ONE_WIRE_FIFODEPTH - pio_sm_get_tx_fifo_level s * 4
        then Inr (as_status ONE_WIRE_NOT_ENOUGH_TX_FIFO_SPACE, s)
        else
          case push_read_words 0 num s of
            Inl f \<Rightarrow> Inl f
          | Inr (i, s1) \<Rightarrow>
              let remainder = num - i in
              if remainder > 0 then
                (case pio_sm_put_blocking
                        (word_of_int (push_bit 2 (remainder * 8 - 1) + 1)) s1 of
                   Inl f \<Rightarrow> Inl f
                 | Inr s2 \<Rightarrow> Inr (as_status ONE_WIRE_NO_ERROR, s2))
              else Inr (as_status ONE_WIRE_NO_ERROR, s1))"

text \<open>
  \<^verbatim>\<open>union { uint8_t a[4]; uint32_t l; } u\<close>: on the little-endian RP2040 \<open>u.a[k]\<close> is
  byte \<open>k\<close> of \<open>u.l\<close>, counted from the least significant one.
\<close>

definition union_a :: "32 word \<Rightarrow> int \<Rightarrow> 8 word" where
  "union_a l k = ucast (drop_bit (8 * nat k) l)"

text \<open>\<^verbatim>\<open>for (int k = 0; k < n; k++) data[i+k] = u.a[k];\<close>\<close>

function store_union_bytes ::
  "int \<Rightarrow> int \<Rightarrow> int \<Rightarrow> 32 word \<Rightarrow> 8 word list \<Rightarrow> fault + 8 word list" where
  "store_union_bytes k n i l data =
     (if k < n then
        (if 0 \<le> i + k \<and> nat (i + k) < length data
         then store_union_bytes (k + 1) n i l (data[nat (i + k) := union_a l k])
         else Inl Undefined_Behaviour)
      else Inr data)"
  by pat_completeness auto
termination
  by (relation "measure (\<lambda>(k, n, i, l, data). nat (n - k))") auto

declare store_union_bytes.simps [simp del]

function pull_read_words ::
  "int \<Rightarrow> int \<Rightarrow> 8 word list \<Rightarrow> pio_sm \<Rightarrow> fault + (int \<times> 8 word list \<times> pio_sm)" where
  "pull_read_words i num data s =
     (if i \<le> num - 4 then
        (case pio_sm_get_blocking s of
           Inl f \<Rightarrow> Inl f
         | Inr (l, s1) \<Rightarrow>
             (case store_union_bytes 0 4 i l data of
                Inl f \<Rightarrow> Inl f
              | Inr data1 \<Rightarrow> pull_read_words (i + 4) num data1 s1))
      else Inr (i, data, s))"
  by pat_completeness auto
termination
  by (relation "measure (\<lambda>(i, num, data, s). nat (num - i))") auto

declare pull_read_words.simps [simp del]

definition oneWire_pull_read_bytes ::
  "8 word list \<Rightarrow> int \<Rightarrow> bool \<Rightarrow> pio_sm \<Rightarrow>
     fault + (oneWire_status \<times> 8 word list \<times> pio_sm)" where
  "oneWire_pull_read_bytes data num wait s =
     (if num > 16 then Inr (as_status ONE_WIRE_ILLEGAL_DATA_SIZE_REQ, data, s)
      else
        let num_pullsx4 = num + 3 in
        if \<not> wait \<and>
           (word_of_int num_pullsx4 :: 32 word) > pio_sm_get_rx_fifo_level s * 4
        then Inr (as_status ONE_WIRE_NOT_ENOUGH_DATA_IN_RX_FIFO, data, s)
        else
          case pull_read_words 0 num data s of
            Inl f \<Rightarrow> Inl f
          | Inr (i, data1, s1) \<Rightarrow>
              let remainder = num - i in
              if remainder > 0 then
                (case pio_sm_get_blocking s1 of
                   Inl f \<Rightarrow> Inl f
                 | Inr (l, s2) \<Rightarrow>
                     (let l' = drop_bit (nat (32 - remainder * 8)) l in
                      case store_union_bytes 0 remainder i l' data1 of
                        Inl f \<Rightarrow> Inl f
                      | Inr data2 \<Rightarrow>
                          (case oneWire_CRC data2 num of
                             Inl f \<Rightarrow> Inl f
                           | Inr r \<Rightarrow> Inr (r, data2, s2))))
              else
                (case oneWire_CRC data1 num of
                   Inl f \<Rightarrow> Inl f
                 | Inr r \<Rightarrow> Inr (r, data1, s1)))"


section \<open>Discovery engine (OneWire.c)\<close>

text \<open>
  The bit-banged primitives \<open>init_OneWireBB\<close>, \<open>oneWire_resetBB\<close>,
  \<open>oneWire_write_byteBB\<close>, \<open>oneWire_read_bitBB\<close> and \<open>oneWire_write_bitBB\<close> drive
  and sample the pin with microsecond delays; what they return is decided by the devices
  on the line.  The search is therefore written over a line \<open>L\<close> that gives, for each
  primitive, its result and its effect on the state \<open>'b\<close> of whatever is attached.
  The delays themselves (\<^verbatim>\<open>busy_wait_us_32\<close>) have no counterpart in the model.
\<close>

record 'b line =
  initBB :: "'b \<Rightarrow> 'b"
  resetBB :: "'b \<Rightarrow> bool \<times> 'b"
  write_byteBB :: "8 word \<Rightarrow> 'b \<Rightarrow> bool \<times> 'b"
  read_bitBB :: "'b \<Rightarrow> bool \<times> 'b"
  write_bitBB :: "bool \<Rightarrow> 'b \<Rightarrow> 'b"

text \<open>
  The walk \<^verbatim>\<open>for (bit = 0; bit < 64; bit++)\<close>; the loop variable \<open>bit\<close> of the source is
  \<open>bitn\<close> here.  \<open>Inl\<close> is the early
  \<^verbatim>\<open>return ONE_WIRE_SEARCH_ROM_FAILURE\<close>; \<open>Inr\<close> carries \<open>current\<close> and
  \<open>discrepancy\<close> after bit 63.
\<close>

function search_bits ::
  "'b line \<Rightarrow> int \<Rightarrow> 64 word \<Rightarrow> 64 word \<Rightarrow> 'b \<Rightarrow> 'b + (64 word \<times> 64 word \<times> 'b)" where
  "search_bits L bitn current discrepancy b =
     (if bitn < 64 then
        (case read_bitBB L b of (wo1, b1) \<Rightarrow>
         case read_bitBB L b1 of (wo2, b2) \<Rightarrow>
           if wo1 \<noteq> wo2 then
             search_bits L (bitn + 1)
               (if wo1 then current OR push_bit (nat bitn) 1
                else current AND NOT (push_bit (nat bitn) 1))
               (discrepancy AND NOT (push_bit (nat bitn) 1))
               (write_bitBB L wo1 b2)
           else if wo1 = False \<and> wo2 = False then
             (if discrepancy AND push_bit (nat bitn) 1 \<noteq> 0 then
                search_bits L (bitn + 1) current discrepancy
                  (write_bitBB L (current AND push_bit (nat bitn) 1 \<noteq> 0) b2)
              else
                search_bits L (bitn + 1)
                  (current OR push_bit (nat bitn) 1)
                  (discrepancy OR push_bit (nat bitn) 1)
                  (write_bitBB L True b2))
           else Inl b2)
      else Inr (current, discrepancy, b))"
  by pat_completeness auto
termination
  by (relation "measure (\<lambda>(L, bitn, current, discrepancy, b). nat (64 - bitn))") auto

declare search_bits.simps [simp del]

text \<open>
  The scan \<^verbatim>\<open>for (bit = 63; bit >= 0; bit--)\<close> after a walk; it returns the final
  \<open>bit\<close> (negative when the loop ran to its end) with \<open>current\<close> and \<open>discrepancy\<close>.
\<close>

function resolve_discrepancy :: "int \<Rightarrow> 64 word \<Rightarrow> 64 word \<Rightarrow> int \<times> 64 word \<times> 64 word" where
  "resolve_discrepancy bitn current discrepancy =
     (if bitn \<ge> 0 then
        (if discrepancy AND push_bit (nat bitn) 1 \<noteq> 0 then
           (if current AND push_bit (nat bitn) 1 \<noteq> 0
            then (bitn, current AND NOT (push_bit (nat bitn) 1), discrepancy)
            else resolve_discrepancy (bitn - 1) current
                   (discrepancy AND NOT (push_bit (nat bitn) 1)))
         else resolve_discrepancy (bitn - 1) current discrepancy)
      else (bitn, current, discrepancy))"
  by pat_completeness auto
termination
  by (relation "measure (\<lambda>(bitn, current, discrepancy). nat (bitn + 1))") auto

declare resolve_discrepancy.simps [simp del]

text \<open>
  The loop \<^verbatim>\<open>while (!done)\<close>.  It need not end, so the result is an option and not
  returning is \<open>None\<close>.  A returned value is the \<^verbatim>\<open>int\<close> result with the array \<open>devs\<close>
  and the state of the line; a store past the end of \<open>devs\<close> is \<open>Undefined_Behaviour\<close>.
\<close>

partial_function (option) search_loop ::
  "'b line \<Rightarrow> 64 word list \<Rightarrow> int \<Rightarrow> 64 word \<Rightarrow> 64 word \<Rightarrow> bool \<Rightarrow> 'b \<Rightarrow>
     (fault + (int \<times> 64 word list \<times> 'b)) option" where
  "search_loop L devs nextdev current discrepancy done b =
     (if \<not> done then
        (case resetBB L b of (present, b1) \<Rightarrow>
           if \<not> present then Some (Inr (0, devs, b1))
           else
             (case write_byteBB L 0xF0 b1 of (_, b2) \<Rightarrow>
              case search_bits L 0 current discrepancy b2 of
                Inl b3 \<Rightarrow> Some (Inr (ONE_WIRE_SEARCH_ROM_FAILURE, devs, b3))
              | Inr (current1, discrepancy1, b3) \<Rightarrow>
                  if 0 \<le> nextdev \<and> nat nextdev < length devs then
                    (case resolve_discrepancy 63 current1 discrepancy1 of
                       (bitn, current2, discrepancy2) \<Rightarrow>
                         search_loop L (devs[nat nextdev := current1]) (nextdev + 1)
                           current2 discrepancy2 (bitn < 0) b3)
                  else Some (Inl Undefined_Behaviour)))
      else Some (Inr (nextdev, devs, b)))"

declare search_loop.simps [code]

definition oneWire_search_rom ::
  "'b line \<Rightarrow> 64 word list \<Rightarrow> 'b \<Rightarrow> (fault + (int \<times> 64 word list \<times> 'b)) option" where
  "oneWire_search_rom L devs b = search_loop L devs 0 0 0 False (initBB L b)"

subsection \<open>A static set of devices on the line\<close>

text \<open>
  Modelled from the spec: the devices are not part of the sources.  Each device holds a
  64-bit ROM code.  A reset makes every device answer with a presence pulse and listen
  again; the command byte 0xF0 starts a search at bit 0.  In a search, the first read slot
  of a position gives the AND of the bits of the devices still taking part, the second
  the AND of their complements, and the bit then written keeps the devices whose bit
  equals it.  \<open>resets\<close> counts the reset pulses.
\<close>

record rom_bus =
  roms :: "64 word list"
  active :: "64 word list"
  searching :: bool
  position :: nat
  phase :: nat
  resets :: nat

definition bus_reset :: "rom_bus \<Rightarrow> bool \<times> rom_bus" where
  "bus_reset b =
     (roms b \<noteq> [],
      b\<lparr>active := roms b, searching := False, position := 0, phase := 0,
        resets := resets b + 1\<rparr>)"

definition bus_write_byte :: "8 word \<Rightarrow> rom_bus \<Rightarrow> bool \<times> rom_bus" where
  "bus_write_byte c b =
     (True, if c = 0xF0 then b\<lparr>searching := True, position := 0, phase := 0\<rparr> else b)"

definition bus_read_bit :: "rom_bus \<Rightarrow> bool \<times> rom_bus" where
  "bus_read_bit b =
     (if searching b \<and> position b < 64 \<and> phase b = 0
      then (list_all (\<lambda>d. bit d (position b)) (active b), b\<lparr>phase := 1\<rparr>)
      else if searching b \<and> position b < 64 \<and> phase b = 1
      then (list_all (\<lambda>d. \<not> bit d (position b)) (active b), b\<lparr>phase := 2\<rparr>)
      else (True, b))"

definition bus_write_bit :: "bool \<Rightarrow> rom_bus \<Rightarrow> rom_bus" where
  "bus_write_bit v b =
     (if searching b \<and> position b < 64 \<and> phase b = 2
      then b\<lparr>active := filter (\<lambda>d. bit d (position b) = v) (active b),
             position := position b + 1, phase := 0\<rparr>
      else b)"

definition static_line :: "rom_bus line" where
  "static_line =
     \<lparr>initBB = (\<lambda>b. b), resetBB = bus_reset, write_byteBB = bus_write_byte,
      read_bitBB = bus_read_bit, write_bitBB = bus_write_bit\<rparr>"

definition idle_bus :: "64 word list \<Rightarrow> rom_bus" where
  "idle_bus ds =
     \<lparr>roms = ds, active = [], searching = False, position = 0, phase = 0, resets = 0\<rparr>"

text \<open>
  The trie of the ROM codes, read from bit 0 upwards: a node at depth \<open>k\<close> is a branch
  point when some of its codes have bit \<open>k\<close> clear and some have it set.
\<close>

function trie_branches :: "nat \<Rightarrow> 64 word list \<Rightarrow> nat" where
  "trie_branches k ds =
     (if k < 64 \<and> ds \<noteq> [] then
        (let zs = filter (\<lambda>d. \<not> bit d k) ds;
             os = filter (\<lambda>d. bit d k) ds
         in (if zs \<noteq> [] \<and> os \<noteq> [] then 1 else 0)
            + trie_branches (k + 1) zs + trie_branches (k + 1) os)
      else 0)"
  by pat_completeness auto
termination
  by (relation "measure (\<lambda>(k, ds). 64 - k)") auto

declare trie_branches.simps [simp del]

section \<open>Definitions used in the statements\<close>

text \<open>
  The running checksum of the source over a whole block: the inner loop \<open>crc_bits\<close>
  applied to each byte in turn, starting from 0.
\<close>

definition crc8 :: "8 word list \<Rightarrow> 8 word" where
  "crc8 bs = fold (\<lambda>t crc. crc_bits 0 crc t) bs 0"

text \<open>
  The reference CRC-8 as the specification words it: each byte is processed least
  significant bit first; the input bit is exclusive-ored into the low bit of the running
  checksum, 0x18 is exclusive-ored in when the resulting low bit is set, and the 8-bit
  checksum is rotated right by one.
\<close>

definition crc8_spec_bit :: "bool \<Rightarrow> 8 word \<Rightarrow> 8 word" where
  "crc8_spec_bit b c =
     (let c1 = (if b then c XOR 1 else c);
          c2 = (if bit c1 0 then c1 XOR 0x18 else c1)
      in word_rotr 1 c2)"

definition crc8_spec_byte :: "8 word \<Rightarrow> 8 word \<Rightarrow> 8 word" where
  "crc8_spec_byte t c = fold (\<lambda>j. crc8_spec_bit (bit t j)) [0..<8] c"

definition crc8_spec :: "8 word list \<Rightarrow> 8 word" where
  "crc8_spec bs = fold crc8_spec_byte bs 0"

text \<open>The two status values that report a full command queue or an empty response queue.\<close>

definition resource_exhaustion :: "oneWire_status \<Rightarrow> bool" where
  "resource_exhaustion st =
     (st = as_status ONE_WIRE_NOT_ENOUGH_TX_FIFO_SPACE \<or>
      st = as_status ONE_WIRE_NOT_ENOUGH_DATA_IN_RX_FIFO)"

text \<open>The command word by which \<open>oneWire_push_read_cmd\<close> requests \<open>num_bits\<close> bits.\<close>

definition read_cmd_word :: "32 word \<Rightarrow> 32 word" where
  "read_cmd_word num_bits = push_bit 2 (num_bits - 1) + 1"

section \<open>The batched push over any hardware\<close>











text \<open>
  A line on which the devices answer the reset pulse only for the first \<open>n\<close> resets, as
  when they are unplugged during a search.
\<close>

definition fading_line :: "nat \<Rightarrow> rom_bus line" where
  "fading_line n =
     static_line\<lparr>resetBB := (\<lambda>b. (resets b < n \<and> roms b \<noteq> [], snd (bus_reset b)))\<rparr>"

text \<open>
  Notions for the analysis of the search.  Two codes have the \<open>same_prefix k\<close> when they
  agree on the bits below \<open>k\<close>.  Position \<open>k\<close> is a \<open>collision\<close> on the path of \<open>d\<close> when
  some device shares the path of \<open>d\<close> up to \<open>k\<close> and differs from it there.  \<open>later d e\<close>
  says that \<open>e\<close> is met after \<open>d\<close> by a traversal that takes the 1 branch first: at the
  first position where they differ, \<open>d\<close> has the 1.  \<open>below ds d\<close> are the devices met
  after \<open>d\<close>.
\<close>

definition same_prefix :: "nat \<Rightarrow> 64 word \<Rightarrow> 64 word \<Rightarrow> bool" where
  "same_prefix k d e \<longleftrightarrow> (\<forall>j<k. bit d j = bit e j)"

definition collision :: "64 word list \<Rightarrow> 64 word \<Rightarrow> nat \<Rightarrow> bool" where
  "collision ds d k \<longleftrightarrow> (\<exists>e\<in>set ds. same_prefix k e d \<and> bit e k \<noteq> bit d k)"

definition later :: "64 word \<Rightarrow> 64 word \<Rightarrow> bool" where
  "later d e \<longleftrightarrow> (\<exists>k<64. same_prefix k e d \<and> bit d k \<and> \<not> bit e k)"

definition below :: "64 word list \<Rightarrow> 64 word \<Rightarrow> 64 word set" where
  "below ds d = {e \<in> set ds. later d e}"

text \<open>The static bus after the reset and the search command that begin a pass.\<close>

definition pass_start :: "rom_bus \<Rightarrow> rom_bus" where
  "pass_start b = snd (bus_write_byte 0xF0 (snd (bus_reset b)))"

text \<open>The static bus after the two read slots and the write slot of one position.\<close>

definition advance :: "bool \<Rightarrow> rom_bus \<Rightarrow> rom_bus" where
  "advance v b =
     b\<lparr>active := filter (\<lambda>d. bit d (position b) = v) (active b), position := position b + 1,
       phase := 0\<rparr>"

text \<open>
  What a walk from position \<open>k\<close> with \<open>current = c\<close> and \<open>discrepancy = m\<close> leaves behind:
  the code \<open>d\<close> of a device, and flags \<open>m'\<close> that mark exactly the collisions on the path
  of \<open>d\<close>; at a collision the walk followed \<open>c\<close> where the position was flagged and took
  the 1 branch where it was not.
\<close>

definition walk_post ::
  "64 word list \<Rightarrow> nat \<Rightarrow> 64 word \<Rightarrow> 64 word \<Rightarrow> 64 word \<Rightarrow> 64 word \<Rightarrow> bool" where
  "walk_post ds k c m d m' \<longleftrightarrow>
     d \<in> set ds \<and> same_prefix k d c \<and> (\<forall>j<k. bit m' j = bit m j) \<and>
     (\<forall>j. k \<le> j \<and> j < 64 \<longrightarrow> bit m' j = collision ds d j) \<and>
     (\<forall>j. k \<le> j \<and> j < 64 \<and> collision ds d j
        \<longrightarrow> bit d j = (if bit m j then bit c j else True))"

section \<open>Properties of the transaction engine\<close>

lemmas status_defs =
  as_status_def ONE_WIRE_NO_ERROR_def ONE_WIRE_POSSIBLE_FIFO_OVERFLOW_def
  ONE_WIRE_NOT_ENOUGH_TX_FIFO_SPACE_def ONE_WIRE_NOT_ENOUGH_DATA_IN_RX_FIFO_def
  ONE_WIRE_READ_CRC_FAILURE_def ONE_WIRE_SEARCH_ROM_FAILURE_def
  ONE_WIRE_ILLEGAL_DATA_SIZE_REQ_def

subsection \<open>The CRC loops\<close>

lemma rotate_via_int:
  "(ucast (drop_bit 1 (ucast c :: 32 word) OR push_bit 7 (ucast c :: 32 word)) :: 8 word)
     = word_rotr 1 c"
proof (rule bit_word_eqI)
  fix n :: nat
  assume "n < LENGTH(8)"
  then have n: "n < 8" by simp
  have m: "Suc n mod 8 = (if n = 7 then 0 else Suc n)"
    using n by auto
  have top: "\<not> bit c (8::nat)"
    using bit_imp_le_length [of c 8] by auto
  show "bit (ucast (drop_bit 1 (ucast c :: 32 word) OR push_bit 7 (ucast c :: 32 word)) :: 8 word) n
     = bit (word_rotr 1 c) n"
    using n top by (auto simp add: bit_simps bit_word_rotr_iff m)
qed

lemma low_bit_mask: "(t :: 8 word) AND 1 = (if bit t 0 then 1 else 0)"
  by (simp add: and_one_eq bit_0 mod_2_eq_odd)

lemma low_bit_test: "((c :: 8 word) AND 1 \<noteq> 0) = bit c 0"
  by (simp add: and_one_eq bit_0 mod_2_eq_odd)

lemma crc_bits_step:
  "j < 8 \<Longrightarrow>
   crc_bits j crc t = crc_bits (j + 1) (crc8_spec_bit (bit t 0) crc) (drop_bit 1 t)"
  apply (subst crc_bits.simps)
  apply (simp only: Let_def rotate_via_int)
  apply (simp add: crc8_spec_bit_def low_bit_test low_bit_mask del: bit_0)
  done

lemma crc_bits_done: "\<not> j < 8 \<Longrightarrow> crc_bits j crc t = crc"
  by (subst crc_bits.simps) simp

lemma crc_bits_spec: "crc_bits 0 crc t = crc8_spec_byte t crc"
  by (simp add: crc_bits_step crc_bits_done crc8_spec_byte_def upt_rec [of _ "numeral _"]
      upt_rec [of 0] bit_drop_bit_eq drop_bit_drop_bit flip: bit_0 del: bit_0)

lemma crc_bytes_fold:
  "0 \<le> i \<Longrightarrow> len \<le> int (length a) \<Longrightarrow>
   crc_bytes i len a crc =
     Inr (fold (\<lambda>t c. crc_bits 0 c t) (drop (nat i) (take (nat len) a)) crc)"
proof (induction i len a crc rule: crc_bytes.induct)
  case (1 i len a crc)
  show ?case
  proof (cases "i < len")
    case True
    with "1.prems" have in_range: "nat i < length a" "nat i < nat len" by auto
    have d: "drop (nat i) (take (nat len) a) = a ! nat i # drop (nat (i + 1)) (take (nat len) a)"
      using in_range "1.prems" Cons_nth_drop_Suc [of "nat i" "take (nat len) a"]
      by (simp add: nat_add_distrib)
    have "crc_bytes i len a crc = crc_bytes (i + 1) len a (crc_bits 0 crc (a ! nat i))"
      using True in_range "1.prems" by (subst crc_bytes.simps) simp
    also have "\<dots> = Inr (fold (\<lambda>t c. crc_bits 0 c t) (drop (nat (i + 1)) (take (nat len) a))
                            (crc_bits 0 crc (a ! nat i)))"
      using True in_range "1.prems" by (intro "1.IH") auto
    finally show ?thesis by (simp add: d)
  next
    case False
    then have "drop (nat i) (take (nat len) a) = []" by simp
    with False show ?thesis by (subst crc_bytes.simps) simp
  qed
qed


lemma oneWire_CRC_crc8:
  "0 \<le> len \<Longrightarrow> len \<le> int (length a) \<Longrightarrow>
   oneWire_CRC a len =
     Inr (if crc8 (take (nat len) a) \<noteq> 0 then as_status ONE_WIRE_READ_CRC_FAILURE
          else as_status ONE_WIRE_NO_ERROR)"
  by (simp add: oneWire_CRC_def crc_bytes_fold crc8_def)


lemma oneWire_CRC_not_resource:
  "oneWire_CRC a len = Inr st \<Longrightarrow> \<not> resource_exhaustion st"
  by (auto simp: oneWire_CRC_def resource_exhaustion_def status_defs
      split: sum.splits if_splits)

lemma crc8_eq_spec: "crc8 bs = crc8_spec bs"
proof -
  have "fold (\<lambda>t crc. crc_bits 0 crc t) bs c = fold crc8_spec_byte bs c" for c
    by (induction bs arbitrary: c) (simp_all add: crc_bits_spec)
  then show ?thesis by (simp add: crc8_def crc8_spec_def)
qed

text \<open>
  When the byte fed in equals the running checksum, every input bit cancels the low bit
  of the checksum, no feedback is applied, and both are shifted out together.
\<close>

lemma spec_bit_same: "crc8_spec_bit (bit c 0) c = drop_bit 1 c"
proof (rule bit_word_eqI)
  fix n :: nat
  assume "n < LENGTH(8)"
  then have n: "n < 8" by simp
  have m: "Suc n mod 8 = (if n = 7 then 0 else Suc n)"
    using n by auto
  show "bit (crc8_spec_bit (bit c 0) c) n = bit (drop_bit 1 c) n"
    using n bit_imp_le_length [of c 8]
    by (auto simp add: crc8_spec_bit_def bit_simps bit_word_rotr_iff m bit_0 Let_def
        simp del: bit_0 split: if_splits)
qed

lemma crc_bits_same: "crc_bits 0 c c = 0"
proof -
  have s: "crc_bits j x x = crc_bits (j + 1) (drop_bit 1 x) (drop_bit 1 x)" if "j < 8" for j x
    using that by (simp only: crc_bits_step [of j x x] spec_bit_same)
  have "crc_bits 0 c c = drop_bit 8 c"
    by (simp add: s crc_bits_done drop_bit_drop_bit)
  also have "\<dots> = 0"
    by (rule bit_word_eqI) (simp add: bit_simps)
  finally show ?thesis .
qed



lemma crc_bits_example: "crc_bits 0 0 0x01 = 0x5E"
  by (subst crc_bits.simps, simp add: Let_def)+

lemma crc_bits_example_bad: "crc_bits 0 0x5E 0x5F \<noteq> 0"
  by (subst crc_bits.simps, simp add: Let_def)+

subsection \<open>The push loop\<close>

lemma push_read_words_step:
  "i \<le> num - 4 \<Longrightarrow> push_read_words i num s =
     (if length (tx_fifo s) < PIO_FIFO_DEPTH
      then push_read_words (i + 4) num (s\<lparr>tx_fifo := tx_fifo s @ [125]\<rparr>)
      else Inl Blocked)"
  by (subst push_read_words.simps) (simp add: pio_sm_put_blocking_def)

lemma push_read_words_done: "\<not> i \<le> num - 4 \<Longrightarrow> push_read_words i num s = Inr (i, s)"
  by (subst push_read_words.simps) simp

lemma byte_count_cases:
  "1 \<le> n \<Longrightarrow> n \<le> 16 \<Longrightarrow>
   n \<in> {1, 2, 3, 4, 5, 6, 7, 8, 9, 10, 11, 12, 13, 14, 15, 16 :: int}"
  by simp arith


subsection \<open>What the single reads and the space check compute\<close>

lemma low_half: "(ucast (ucast (w :: 32 word) :: 16 word) :: 32 word) = take_bit 16 w"
  by (rule bit_word_eqI) (auto simp add: bit_simps)

text \<open>For every legal bit count the value returned is taken from the low 16 bits only.\<close>

lemma pull_read_data_value:
  assumes "1 \<le> num_bits" and "num_bits \<le> 32" and "rx_fifo s = w # ws"
  shows "oneWire_pull_read_data num_bits s
     = Inr (drop_bit (32 - unat num_bits) (take_bit 16 w), s\<lparr>rx_fifo := ws\<rparr>)"
proof -
  from assms have "unat num_bits \<le> 32" "1 \<le> unat num_bits"
    by (simp_all add: word_le_nat_alt)
  then have "unat (32 - num_bits) = 32 - unat num_bits"
    using assms by (simp add: unat_sub)
  with \<open>1 \<le> unat num_bits\<close> assms(3) show ?thesis
    by (simp add: oneWire_pull_read_data_def pio_sm_get_blocking_def low_half Let_def)
qed

text \<open>Whenever a single read returns, its status is absent or the queue-full error.\<close>

lemma single_reads_status_is_error_or_none:
  "(oneWire_read_byte d8 wait s = Inr (st8, v8, s8) \<longrightarrow>
      st8 = None \<or> st8 = Some (as_status ONE_WIRE_NOT_ENOUGH_TX_FIFO_SPACE)) \<and>
   (oneWire_read_uint d16 wait s = Inr (st16, v16, s16) \<longrightarrow>
      st16 = None \<or> st16 = Some (as_status ONE_WIRE_NOT_ENOUGH_TX_FIFO_SPACE)) \<and>
   (oneWire_read_ulong d32 wait s = Inr (st32, v32, s32) \<longrightarrow>
      st32 = None \<or> st32 = Some (as_status ONE_WIRE_NOT_ENOUGH_TX_FIFO_SPACE))"
  by (auto simp: oneWire_read_byte_def oneWire_read_uint_def oneWire_read_ulong_def
      oneWire_push_read_cmd_def status_defs split: if_splits sum.splits prod.splits)

lemma tx_level_cases: "l \<le> 4 \<Longrightarrow> l \<in> {0, 1, 2, 3, 4 :: nat}"
  by simp arith

text \<open>
  The non-blocking space check, for 1 to 16 bytes and every level of the command queue:
  it reports the error on an empty queue for more than one byte, always at level 1, and
  never from level 2 on.
\<close>

lemma push_read_bytes_cmd_check:
  assumes "1 \<le> n" and "n \<le> 16" and "length (tx_fifo s) \<le> 4"
  shows "(oneWire_push_read_bytes_cmd n False s
            = Inr (as_status ONE_WIRE_NOT_ENOUGH_TX_FIFO_SPACE, s))
     \<longleftrightarrow> (length (tx_fifo s) = 0 \<and> 1 < n \<or> length (tx_fifo s) = 1)"
  using byte_count_cases [OF assms(1,2)] tx_level_cases [OF assms(3)]
  apply (elim insertE emptyE)
  apply (simp_all add: oneWire_push_read_bytes_cmd_def pio_sm_get_tx_fifo_level_def
      ONE_WIRE_FIFODEPTH_def push_read_words_step push_read_words_done
      pio_sm_put_blocking_def PIO_FIFO_DEPTH_def status_defs)
  done

subsection \<open>Claims about the transaction engine\<close>

text \<open>
  Claim C1.  For a requested bit count between 1 and 32, \<open>oneWire_pull_read_data\<close> is
  claimed to return the response word shifted right by \<open>32 - num_bits\<close>.  The source
  first stores the word in a 16-bit local: for \<open>num_bits = 8\<close> and the response word
  \<open>0xAB000000\<close> it returns 0, where the shifted word is \<open>0xAB\<close>.
\<close>

theorem pull_read_data_keeps_low_half:
  "oneWire_pull_read_data 8 \<lparr>tx_fifo = [], rx_fifo = [0xAB000000]\<rparr>
     = Inr (0, \<lparr>tx_fifo = [], rx_fifo = []\<rparr>) \<and>
   drop_bit (32 - 8) (0xAB000000 :: 32 word) = 0xAB"
  by (simp add: oneWire_pull_read_data_def pio_sm_get_blocking_def)

text \<open>
  Claim C2.  A non-blocking \<open>oneWire_push_read_bytes_cmd\<close> is claimed to report
  \<open>NotEnoughTxFifoSpace\<close> exactly when the words it needs exceed the free slots, and so
  to succeed on an empty queue.  The source compares \<open>num + 3\<close> with
  \<open>ONE_WIRE_FIFODEPTH - level * 4\<close>: for two bytes and an empty queue it reports the
  error and pushes nothing, although one word is needed and four slots are free.  On a
  full queue the unsigned difference wraps around, the check passes and the put blocks.
\<close>

theorem push_read_bytes_cmd_rejects_on_empty_queue:
  "oneWire_push_read_bytes_cmd 2 False \<lparr>tx_fifo = [], rx_fifo = []\<rparr>
     = Inr (as_status ONE_WIRE_NOT_ENOUGH_TX_FIFO_SPACE, \<lparr>tx_fifo = [], rx_fifo = []\<rparr>) \<and>
   nat ((2 + 3) div 4) \<le> PIO_FIFO_DEPTH - length (tx_fifo \<lparr>tx_fifo = [], rx_fifo = []\<rparr>) \<and>
   oneWire_push_read_bytes_cmd 1 False \<lparr>tx_fifo = [2, 0, 2, 0], rx_fifo = []\<rparr> = Inl Blocked"
  by (simp add: oneWire_push_read_bytes_cmd_def pio_sm_get_tx_fifo_level_def
      ONE_WIRE_FIFODEPTH_def PIO_FIFO_DEPTH_def push_read_words_done pio_sm_put_blocking_def)

text \<open>
  Claim C3.  The single-value reads are claimed to return status 0 on their success path.
  On that path \<open>oneWire_read_byte\<close>, \<open>oneWire_read_uint\<close> and \<open>oneWire_read_ulong\<close>
  write the data and reach the end of the function without returning any status.
\<close>

theorem single_reads_return_no_status:
  "oneWire_read_byte 0 True \<lparr>tx_fifo = [], rx_fifo = [0x12345678]\<rparr>
     = Inr (None, 0, \<lparr>tx_fifo = [0x1D], rx_fifo = []\<rparr>) \<and>
   oneWire_read_uint 0 True \<lparr>tx_fifo = [], rx_fifo = [0x12345678]\<rparr>
     = Inr (None, 0, \<lparr>tx_fifo = [0x3D], rx_fifo = []\<rparr>) \<and>
   oneWire_read_ulong 0 True \<lparr>tx_fifo = [], rx_fifo = [0x12345678]\<rparr>
     = Inr (None, 0x5678, \<lparr>tx_fifo = [0x7D], rx_fifo = []\<rparr>)"
  by (simp add: oneWire_read_byte_def oneWire_read_uint_def oneWire_read_ulong_def
      oneWire_push_read_cmd_def oneWire_pull_read_data_def pio_sm_put_blocking_def
      pio_sm_get_blocking_def PIO_FIFO_DEPTH_def status_defs)

text \<open>
  Claim C4.  When a call with \<open>wait = false\<close> of reset, waitForIdle, writeByte, writeWord,
  push_read_bytes_cmd or pull_read_bytes returns \<open>NotEnoughTxFifoSpace\<close> or
  \<open>NotEnoughDataInRxFifo\<close>, both queues are exactly as before the call, and
  pull_read_bytes has written no byte of the caller's buffer.
\<close>

theorem nonblocking_error_keeps_queues:
  "(oneWire_reset False s = Inr (st, s') \<and> resource_exhaustion st \<longrightarrow> s' = s) \<and>
   (oneWire_wait_for_idle False s = Inr (st, s') \<and> resource_exhaustion st \<longrightarrow> s' = s) \<and>
   (oneWire_write_byte b False s = Inr (st, s') \<and> resource_exhaustion st \<longrightarrow> s' = s) \<and>
   (oneWire_write_uint w False s = Inr (st, s') \<and> resource_exhaustion st \<longrightarrow> s' = s) \<and>
   (oneWire_push_read_bytes_cmd num False s = Inr (st, s') \<and> resource_exhaustion st
      \<longrightarrow> s' = s) \<and>
   (oneWire_pull_read_bytes data num False s = Inr (st, data', s') \<and> resource_exhaustion st
      \<longrightarrow> s' = s \<and> data' = data)"
proof -
  have reset: "s' = s"
    if "oneWire_reset False s = Inr (st, s')" "resource_exhaustion st"
    using that
    by (auto simp: oneWire_reset_def resource_exhaustion_def status_defs
        split: if_splits sum.splits)
  have idle: "s' = s"
    if "oneWire_wait_for_idle False s = Inr (st, s')" "resource_exhaustion st"
    using that
    by (auto simp: oneWire_wait_for_idle_def resource_exhaustion_def status_defs
        split: if_splits sum.splits)
  have wbyte: "s' = s"
    if "oneWire_write_byte b False s = Inr (st, s')" "resource_exhaustion st"
    using that
    by (auto simp: oneWire_write_byte_def resource_exhaustion_def status_defs
        split: if_splits sum.splits)
  have wuint: "s' = s"
    if "oneWire_write_uint w False s = Inr (st, s')" "resource_exhaustion st"
    using that
    by (auto simp: oneWire_write_uint_def resource_exhaustion_def status_defs
        split: if_splits sum.splits)
  have push: "s' = s"
    if "oneWire_push_read_bytes_cmd num False s = Inr (st, s')" "resource_exhaustion st"
    using that
    by (auto simp: oneWire_push_read_bytes_cmd_def resource_exhaustion_def status_defs Let_def
        split: if_splits sum.splits prod.splits)
  have pull: "s' = s \<and> data' = data"
    if a: "oneWire_pull_read_bytes data num False s = Inr (st, data', s')"
      and r: "resource_exhaustion st"
  proof (rule ccontr)
    assume "\<not> (s' = s \<and> data' = data)"
    with a obtain d where "oneWire_CRC d num = Inr st"
      by (auto simp: oneWire_pull_read_bytes_def Let_def
          split: if_splits sum.splits prod.splits)
    with r oneWire_CRC_not_resource show False by blast
  qed
  from reset idle wbyte wuint push pull show ?thesis by blast
qed

theorem nonblocking_error_keeps_queues_witness:
  "oneWire_reset False \<lparr>tx_fifo = [2, 0, 2, 0], rx_fifo = []\<rparr>
     = Inr (0xFFFE, \<lparr>tx_fifo = [2, 0, 2, 0], rx_fifo = []\<rparr>) \<and>
   oneWire_push_read_bytes_cmd 5 False \<lparr>tx_fifo = [2], rx_fifo = []\<rparr>
     = Inr (0xFFFE, \<lparr>tx_fifo = [2], rx_fifo = []\<rparr>) \<and>
   oneWire_pull_read_bytes [0, 0] 2 False \<lparr>tx_fifo = [], rx_fifo = []\<rparr>
     = Inr (0xFFFD, [0, 0], \<lparr>tx_fifo = [], rx_fifo = []\<rparr>) \<and>
   resource_exhaustion 0xFFFE \<and> resource_exhaustion 0xFFFD"
  using nonblocking_error_keeps_queues
    [of "\<lparr>tx_fifo = [2, 0, 2, 0], rx_fifo = []\<rparr>" "0xFFFE"
        "\<lparr>tx_fifo = [2, 0, 2, 0], rx_fifo = []\<rparr>"]
  by (simp add: oneWire_reset_def oneWire_push_read_bytes_cmd_def oneWire_pull_read_bytes_def
      pio_sm_is_tx_fifo_full_def pio_sm_get_tx_fifo_level_def pio_sm_get_rx_fifo_level_def
      PIO_FIFO_DEPTH_def ONE_WIRE_FIFODEPTH_def resource_exhaustion_def status_defs)



subsection \<open>The batched push over any hardware\<close>










text \<open>
  The two queues without a coprocessor step: with room for the words they are appended,
  with less room the put blocks.
\<close>

lemma push_read_bytes_cmd_static_queue:
  assumes "1 \<le> n" and "n \<le> 16"
  shows "oneWire_push_read_bytes_cmd n True s =
     (if length (tx_fifo s) + nat ((n + 3) div 4) \<le> PIO_FIFO_DEPTH
      then Inr (as_status ONE_WIRE_NO_ERROR,
                s\<lparr>tx_fifo := tx_fifo s @ replicate (nat (n div 4)) (read_cmd_word 32) @
                     (if n mod 4 \<noteq> 0 then [read_cmd_word (word_of_int ((n mod 4) * 8))]
                      else [])\<rparr>)
      else Inl Blocked)"
  using byte_count_cases [OF assms]
  apply (elim insertE emptyE)
  apply (simp_all add: oneWire_push_read_bytes_cmd_def push_read_words_step
      push_read_words_done pio_sm_put_blocking_def PIO_FIFO_DEPTH_def read_cmd_word_def
      numeral_eq_Suc Let_def)
  done



text \<open>
  Claim C7.  For a length \<open>len\<close> from 0 up to the size of the array, \<open>oneWire_CRC\<close>
  computes the reference CRC-8 of the specification over the first \<open>len\<close> bytes; it
  returns 0 when that value is zero and \<open>ReadCrcFailure\<close> otherwise.
\<close>

theorem oneWire_CRC_refines_spec:
  "0 \<le> len \<Longrightarrow> len \<le> int (length a) \<Longrightarrow>
   oneWire_CRC a len =
     Inr (if crc8_spec (take (nat len) a) = 0 then as_status ONE_WIRE_NO_ERROR
          else as_status ONE_WIRE_READ_CRC_FAILURE)"
  by (simp add: oneWire_CRC_crc8 crc8_eq_spec)

theorem oneWire_CRC_refines_spec_witness:
  "oneWire_CRC [0x01, 0x5E] 2 = Inr (as_status ONE_WIRE_NO_ERROR) \<and>
   oneWire_CRC [0x01, 0x5F] 2 = Inr (as_status ONE_WIRE_READ_CRC_FAILURE)"
proof -
  have good: "crc8_spec [0x01, 0x5E] = 0"
    by (simp add: crc_bits_example crc_bits_same flip: crc8_eq_spec add: crc8_def)
  have bad: "crc8_spec [0x01, 0x5F] \<noteq> 0"
    by (simp add: crc_bits_example crc_bits_example_bad flip: crc8_eq_spec add: crc8_def)
  show ?thesis
    using oneWire_CRC_refines_spec [of 2 "[0x01, 0x5E]"]
      oneWire_CRC_refines_spec [of 2 "[0x01, 0x5F]"] good bad
    by simp
qed


section \<open>Properties of the discovery engine\<close>

lemmas bus_defs = bus_reset_def bus_write_byte_def bus_read_bit_def bus_write_bit_def
  static_line_def idle_bus_def fading_line_def

lemma fading_line_simps:
  "initBB (fading_line n) = (\<lambda>b. b)"
  "resetBB (fading_line n) = (\<lambda>b. (resets b < n \<and> roms b \<noteq> [], snd (bus_reset b)))"
  "write_byteBB (fading_line n) = bus_write_byte"
  by (simp_all add: fading_line_def static_line_def)

lemma test_mask: "((x :: 64 word) AND 2 ^ k \<noteq> 0) = bit x k"
  by (simp add: and_exp_eq_0_iff_not_bit)

lemma bit_or_mask: "k < 64 \<Longrightarrow> bit ((x :: 64 word) OR 2 ^ k) j = (bit x j \<or> j = k)"
  by (auto simp add: bit_simps)

lemma bit_and_not_mask: "bit ((x :: 64 word) AND NOT (2 ^ k)) j = (bit x j \<and> j \<noteq> k)"
  by (auto simp add: bit_simps dest: bit_imp_le_length)

lemma same_prefix_0 [simp]: "same_prefix 0 d e"
  by (simp add: same_prefix_def)

lemma same_prefix_Suc: "same_prefix (Suc k) d e \<longleftrightarrow> same_prefix k d e \<and> bit d k = bit e k"
  by (auto simp add: same_prefix_def less_Suc_eq)

lemma same_prefix_64: "same_prefix 64 d e \<longleftrightarrow> d = e"
proof
  assume "same_prefix 64 d e"
  then show "d = e"
    by (intro bit_word_eqI) (simp add: same_prefix_def)
qed (simp add: same_prefix_def)

lemma same_prefix_sym: "same_prefix k d e \<Longrightarrow> same_prefix k e d"
  by (simp add: same_prefix_def)

lemma same_prefix_trans: "same_prefix k d e \<Longrightarrow> same_prefix k e f \<Longrightarrow> same_prefix k d f"
  by (simp add: same_prefix_def)

lemma same_prefix_mono: "same_prefix k d e \<Longrightarrow> j \<le> k \<Longrightarrow> same_prefix j d e"
  by (simp add: same_prefix_def)

lemma later_irrefl: "\<not> later d d"
  by (auto simp: later_def)

lemma later_total:
  assumes "d \<noteq> e"
  shows "later d e \<or> later e d"
proof -
  from assms have "\<exists>j. j < 64 \<and> bit d j \<noteq> bit e j"
    by (metis same_prefix_64 same_prefix_def)
  then obtain k where k: "k < 64 \<and> bit d k \<noteq> bit e k"
    and least: "\<And>j. j < k \<Longrightarrow> \<not> (j < 64 \<and> bit d j \<noteq> bit e j)"
    using exists_least_iff [of "\<lambda>j. j < 64 \<and> bit d j \<noteq> bit e j"] by blast
  from least k have "same_prefix k d e"
    by (auto simp: same_prefix_def)
  with k show ?thesis
    by (auto simp: later_def dest: same_prefix_sym)
qed

lemma later_trans:
  assumes "later d e" and "later e f"
  shows "later d f"
proof -
  from assms(1) obtain k1 where k1: "k1 < 64" "same_prefix k1 e d" "bit d k1" "\<not> bit e k1"
    by (auto simp: later_def)
  from assms(2) obtain k2 where k2: "k2 < 64" "same_prefix k2 f e" "bit e k2" "\<not> bit f k2"
    by (auto simp: later_def)
  consider "k1 < k2" | "k2 < k1" | "k1 = k2" by linarith
  then show ?thesis
  proof cases
    case 1
    with k1 k2 have "same_prefix k1 f d" "\<not> bit f k1"
      by (auto simp: same_prefix_def)
    with k1 show ?thesis by (auto simp: later_def)
  next
    case 2
    with k1 k2 have "same_prefix k2 f d" "bit d k2"
      by (auto simp: same_prefix_def)
    with k2 show ?thesis by (auto simp: later_def)
  next
    case 3
    with k1 k2 show ?thesis by simp
  qed
qed

lemma advance_simps [simp]:
  "active (advance v b) = filter (\<lambda>d. bit d (position b) = v) (active b)"
  "position (advance v b) = Suc (position b)"
  "searching (advance v b) = searching b"
  "phase (advance v b) = 0"
  "roms (advance v b) = roms b"
  "resets (advance v b) = resets b"
  by (simp_all add: advance_def)

lemma search_bits_static_step:
  assumes "k < 64" and "searching b" and "position b = k" and "phase b = 0"
  shows "search_bits static_line (int k) c m b =
     (if list_all (\<lambda>d. bit d k) (active b) \<noteq> list_all (\<lambda>d. \<not> bit d k) (active b) then
        search_bits static_line (int (Suc k))
          (if list_all (\<lambda>d. bit d k) (active b) then c OR push_bit k 1
           else c AND NOT (push_bit k 1))
          (m AND NOT (push_bit k 1))
          (advance (list_all (\<lambda>d. bit d k) (active b)) b)
      else if \<not> list_all (\<lambda>d. bit d k) (active b) then
        (if bit m k then search_bits static_line (int (Suc k)) c m (advance (bit c k) b)
         else search_bits static_line (int (Suc k)) (c OR push_bit k 1) (m OR push_bit k 1)
                (advance True b))
      else Inl (b\<lparr>phase := 2\<rparr>))"
proof -
  have i: "int k + 1 = int (Suc k)" by simp
  show ?thesis
    using assms
    apply (subst search_bits.simps)
    apply (simp only: i)
    apply (simp add: static_line_def bus_read_bit_def bus_write_bit_def advance_def
        and_exp_eq_0_iff_not_bit del: of_nat_Suc)
    done
qed

lemma search_bits_static_done: "search_bits L 64 c m b = Inr (c, m, b)"
  by (subst search_bits.simps) simp

lemma walk_choice:
  assumes k: "k < 64" and b: "searching b" "position b = k" "phase b = 0"
    and ne: "active b \<noteq> []"
  shows "\<exists>c1 m1.
     search_bits static_line (int k) c m b
       = search_bits static_line (int (Suc k)) c1 m1 (advance (bit c1 k) b) \<and>
     (\<forall>j. j \<noteq> k \<longrightarrow> bit c1 j = bit c j) \<and> (\<forall>j. j \<noteq> k \<longrightarrow> bit m1 j = bit m j) \<and>
     (\<exists>e\<in>set (active b). bit e k = bit c1 k) \<and>
     bit m1 k = (\<exists>e\<in>set (active b). bit e k \<noteq> bit c1 k) \<and>
     ((\<exists>e\<in>set (active b). bit e k \<noteq> bit c1 k) \<longrightarrow>
        bit c1 k = (if bit m k then bit c k else True))"
proof -
  let ?A = "active b"
  let ?all1 = "list_all (\<lambda>d. bit d k) ?A"
  let ?all0 = "list_all (\<lambda>d. \<not> bit d k) ?A"
  note step = search_bits_static_step [OF k b, of c m]
  from ne obtain a where a: "a \<in> set ?A" by (cases ?A) auto
  consider (agree) "?all1 \<noteq> ?all0" | (clash) "\<not> ?all1" "\<not> ?all0" | (none) "?all1" "?all0"
    by blast
  then show ?thesis
  proof cases
    case agree
    let ?c1 = "if ?all1 then c OR push_bit k 1 else c AND NOT (push_bit k 1)"
    let ?m1 = "m AND NOT (push_bit k 1)"
    have ck: "bit ?c1 k = ?all1"
      using k by (simp add: bit_or_mask bit_and_not_mask)
    have all: "\<forall>e\<in>set ?A. bit e k = ?all1"
      using agree by (auto simp: list_all_iff)
    have f1: "search_bits static_line (int k) c m b
       = search_bits static_line (int (Suc k)) ?c1 ?m1 (advance (bit ?c1 k) b)"
      using agree ck by (simp add: step)
    have f2: "\<forall>j. j \<noteq> k \<longrightarrow> bit ?c1 j = bit c j"
      using k by (simp add: bit_or_mask bit_and_not_mask)
    have f3: "\<forall>j. j \<noteq> k \<longrightarrow> bit ?m1 j = bit m j"
      by (simp add: bit_and_not_mask)
    have f4: "\<exists>e\<in>set ?A. bit e k = bit ?c1 k"
      using a all ck by blast
    have f5: "bit ?m1 k = (\<exists>e\<in>set ?A. bit e k \<noteq> bit ?c1 k)"
      using all ck by (simp add: bit_and_not_mask)
    have f6: "(\<exists>e\<in>set ?A. bit e k \<noteq> bit ?c1 k) \<longrightarrow>
        bit ?c1 k = (if bit m k then bit c k else True)"
      using all ck by simp
    show ?thesis
      by (rule exI [of _ ?c1], rule exI [of _ ?m1]) (intro conjI f1 f2 f3 f4 f5 f6)
  next
    case clash
    then obtain e0 e1 where e: "e0 \<in> set ?A" "\<not> bit e0 k" "e1 \<in> set ?A" "bit e1 k"
      by (auto simp: list_all_iff)
    show ?thesis
    proof (cases "bit m k")
      case True
      have f1: "search_bits static_line (int k) c m b
         = search_bits static_line (int (Suc k)) c m (advance (bit c k) b)"
        using clash True by (simp add: step)
      have f2: "\<forall>j. j \<noteq> k \<longrightarrow> bit c j = bit c j"
        and f3: "\<forall>j. j \<noteq> k \<longrightarrow> bit m j = bit m j"
        by simp_all
      have f4: "\<exists>e\<in>set ?A. bit e k = bit c k"
        using e by (cases "bit c k") auto
      have ex: "\<exists>e\<in>set ?A. bit e k \<noteq> bit c k"
        using e by (cases "bit c k") auto
      have f5: "bit m k = (\<exists>e\<in>set ?A. bit e k \<noteq> bit c k)"
        using ex True by simp
      have f6: "(\<exists>e\<in>set ?A. bit e k \<noteq> bit c k) \<longrightarrow>
          bit c k = (if bit m k then bit c k else True)"
        using True by simp
      show ?thesis
        by (rule exI [of _ c], rule exI [of _ m]) (intro conjI f1 f2 f3 f4 f5 f6)
    next
      case False
      let ?c1 = "c OR push_bit k 1"
      let ?m1 = "m OR push_bit k 1"
      have ck: "bit ?c1 k" "bit ?m1 k"
        using k by (simp_all add: bit_or_mask)
      have f1: "search_bits static_line (int k) c m b
         = search_bits static_line (int (Suc k)) ?c1 ?m1 (advance (bit ?c1 k) b)"
        using clash False ck by (simp add: step)
      have f2: "\<forall>j. j \<noteq> k \<longrightarrow> bit ?c1 j = bit c j"
        using k by (simp add: bit_or_mask)
      have f3: "\<forall>j. j \<noteq> k \<longrightarrow> bit ?m1 j = bit m j"
        using k by (simp add: bit_or_mask)
      have f4: "\<exists>e\<in>set ?A. bit e k = bit ?c1 k"
        using e ck by auto
      have f5: "bit ?m1 k = (\<exists>e\<in>set ?A. bit e k \<noteq> bit ?c1 k)"
        using e ck by auto
      have f6: "(\<exists>e\<in>set ?A. bit e k \<noteq> bit ?c1 k) \<longrightarrow>
          bit ?c1 k = (if bit m k then bit c k else True)"
        using False ck by simp
      show ?thesis
        by (rule exI [of _ ?c1], rule exI [of _ ?m1]) (intro conjI f1 f2 f3 f4 f5 f6)
    qed
  next
    case none
    with a show ?thesis by (auto simp: list_all_iff)
  qed
qed

lemma filter_prefix_Suc:
  assumes "\<forall>j<k. bit c1 j = bit c j"
  shows "filter (\<lambda>e. same_prefix k e c \<and> bit e k = bit c1 k) ds
     = filter (\<lambda>e. same_prefix (Suc k) e c1) ds"
proof -
  have "same_prefix k e c = same_prefix k e c1" for e
    using assms by (auto simp: same_prefix_def)
  then show ?thesis
    by (auto simp: same_prefix_Suc intro: filter_cong)
qed

lemma collision_via_active:
  assumes sp: "same_prefix (Suc k) d c1" and c1: "\<forall>j<k. bit c1 j = bit c j"
  shows "collision ds d k \<longleftrightarrow> (\<exists>e\<in>set (filter (\<lambda>e. same_prefix k e c) ds). bit e k \<noteq> bit c1 k)"
proof -
  from sp have dk: "bit d k = bit c1 k" and dp: "same_prefix k d c1"
    by (simp_all add: same_prefix_Suc)
  have "same_prefix k e d = same_prefix k e c" for e
    using dp c1 by (auto simp: same_prefix_def)
  then show ?thesis
    by (auto simp: collision_def dk)
qed

lemma walk_static:
  assumes "64 - k = n" and "k \<le> 64"
    and "active b = filter (\<lambda>e. same_prefix k e c) ds" and "active b \<noteq> []"
    and "searching b" and "position b = k" and "phase b = 0" and "roms b = ds"
  shows "\<exists>d m' b'. search_bits static_line (int k) c m b = Inr (d, m', b') \<and>
           roms b' = ds \<and> resets b' = resets b \<and> walk_post ds k c m d m'"
  using assms
proof (induction n arbitrary: k c m b)
  case 0
  then have k: "k = 64" by simp
  from "0.prems" have "filter (\<lambda>e. same_prefix k e c) ds \<noteq> []" by simp
  then obtain e where "e \<in> set ds" "same_prefix k e c"
    by (auto simp: filter_empty_conv)
  with k have "c \<in> set ds" by (simp add: same_prefix_64)
  with k "0.prems" show ?case
    by (auto simp add: search_bits_static_done walk_post_def same_prefix_def)
next
  case (Suc n)
  then have k: "k < 64" and n: "64 - Suc k = n" and k': "Suc k \<le> 64" by simp_all
  note b = \<open>searching b\<close> \<open>position b = k\<close> \<open>phase b = 0\<close>
  note A = \<open>active b = filter (\<lambda>e. same_prefix k e c) ds\<close>
  from walk_choice [OF k b \<open>active b \<noteq> []\<close>, of c m]
  obtain c1 m1 where
    step: "search_bits static_line (int k) c m b
       = search_bits static_line (int (Suc k)) c1 m1 (advance (bit c1 k) b)"
    and c1: "\<forall>j. j \<noteq> k \<longrightarrow> bit c1 j = bit c j"
    and m1: "\<forall>j. j \<noteq> k \<longrightarrow> bit m1 j = bit m j"
    and ex: "\<exists>e\<in>set (active b). bit e k = bit c1 k"
    and mk: "bit m1 k = (\<exists>e\<in>set (active b). bit e k \<noteq> bit c1 k)"
    and ck: "(\<exists>e\<in>set (active b). bit e k \<noteq> bit c1 k) \<longrightarrow>
        bit c1 k = (if bit m k then bit c k else True)"
    by blast
  let ?b1 = "advance (bit c1 k) b"
  from c1 have c1': "\<forall>j<k. bit c1 j = bit c j" by simp
  have A1: "active ?b1 = filter (\<lambda>e. same_prefix (Suc k) e c1) ds"
    using b by (simp add: A filter_prefix_Suc [OF c1'])
  have ne1: "active ?b1 \<noteq> []"
    using ex b by (auto simp: filter_empty_conv)
  from Suc.IH [OF n k' A1 ne1, of m1] b \<open>roms b = ds\<close>
  obtain d m' b' where
    run: "search_bits static_line (int (Suc k)) c1 m1 ?b1 = Inr (d, m', b')"
    and bus: "roms b' = ds" "resets b' = resets b"
    and post: "walk_post ds (Suc k) c1 m1 d m'"
    by auto
  from post have d: "d \<in> set ds" and sp: "same_prefix (Suc k) d c1"
    and low: "\<forall>j<Suc k. bit m' j = bit m1 j"
    and high: "\<forall>j. Suc k \<le> j \<and> j < 64 \<longrightarrow> bit m' j = collision ds d j"
    and path: "\<forall>j. Suc k \<le> j \<and> j < 64 \<and> collision ds d j
        \<longrightarrow> bit d j = (if bit m1 j then bit c1 j else True)"
    by (simp_all add: walk_post_def)
  from sp have dk: "bit d k = bit c1 k" and dp: "same_prefix k d c1"
    by (simp_all add: same_prefix_Suc)
  have collk: "collision ds d k = (\<exists>e\<in>set (active b). bit e k \<noteq> bit c1 k)"
    using collision_via_active [OF sp c1'] by (simp add: A)
  have p1: "same_prefix k d c"
    using dp c1' by (simp add: same_prefix_def)
  have p2: "\<forall>j<k. bit m' j = bit m j"
    using low m1 by simp
  have p3: "\<forall>j. k \<le> j \<and> j < 64 \<longrightarrow> bit m' j = collision ds d j"
  proof (intro allI impI)
    fix j assume j: "k \<le> j \<and> j < 64"
    show "bit m' j = collision ds d j"
    proof (cases "j = k")
      case True
      with low mk collk show ?thesis by simp
    next
      case False
      with j high show ?thesis by simp
    qed
  qed
  have p4: "\<forall>j. k \<le> j \<and> j < 64 \<and> collision ds d j
      \<longrightarrow> bit d j = (if bit m j then bit c j else True)"
  proof (intro allI impI)
    fix j assume j: "k \<le> j \<and> j < 64 \<and> collision ds d j"
    show "bit d j = (if bit m j then bit c j else True)"
    proof (cases "j = k")
      case True
      with j collk ck dk show ?thesis by simp
    next
      case False
      with j path c1 m1 show ?thesis by simp
    qed
  qed
  from d p1 p2 p3 p4 have "walk_post ds k c m d m'"
    by (simp add: walk_post_def)
  with step run bus show ?case by simp
qed

lemma resolve_unfold:
  "resolve_discrepancy (int k) c m =
     (if bit m k then
        (if bit c k then (int k, c AND NOT (2 ^ k), m)
         else resolve_discrepancy (int k - 1) c (m AND NOT (2 ^ k)))
      else resolve_discrepancy (int k - 1) c m)"
  by (subst resolve_discrepancy.simps) (simp add: test_mask)

lemma resolve_end: "resolve_discrepancy (- 1) c m = (- 1, c, m)"
  by (subst resolve_discrepancy.simps) simp

lemma int_Suc_pred: "int (Suc k) - 1 = int k"
  by simp

lemma scan_none:
  "\<forall>j<k. bit m j \<longrightarrow> \<not> bit c j \<Longrightarrow>
   \<exists>m'. resolve_discrepancy (int k - 1) c m = (- 1, c, m')"
proof (induction k arbitrary: m)
  case 0
  then show ?case by (simp add: resolve_end)
next
  case (Suc k)
  have "\<forall>j<k. bit (m AND NOT (2 ^ k)) j \<longrightarrow> \<not> bit c j"
    using Suc.prems by (simp add: bit_and_not_mask)
  from Suc.IH [OF this] Suc.IH [of m] Suc.prems show ?case
    unfolding int_Suc_pred by (subst resolve_unfold) auto
qed

lemma scan_found:
  "p < k \<Longrightarrow> bit m p \<Longrightarrow> bit c p \<Longrightarrow> \<forall>j. p < j \<and> j < k \<longrightarrow> bit m j \<longrightarrow> \<not> bit c j \<Longrightarrow>
   \<exists>c' m'. resolve_discrepancy (int k - 1) c m = (int p, c', m') \<and>
     (\<forall>j. bit c' j = (bit c j \<and> j \<noteq> p)) \<and>
     (\<forall>j. bit m' j = (bit m j \<and> (j \<le> p \<or> k \<le> j)))"
proof (induction k arbitrary: m)
  case 0
  then show ?case by simp
next
  case (Suc k)
  show ?case
  proof (cases "p = k")
    case True
    with Suc.prems show ?thesis
      unfolding int_Suc_pred by (subst resolve_unfold) (auto simp add: bit_and_not_mask)
  next
    case False
    with Suc.prems have pk: "p < k" by simp
    show ?thesis
    proof (cases "bit m k")
      case True
      let ?m1 = "m AND NOT (2 ^ k)"
      from True Suc.prems pk have nc: "\<not> bit c k" by simp
      have g1: "bit ?m1 p" using Suc.prems pk by (simp add: bit_and_not_mask)
      have g2: "\<forall>j. p < j \<and> j < k \<longrightarrow> bit ?m1 j \<longrightarrow> \<not> bit c j"
        using Suc.prems by (simp add: bit_and_not_mask)
      from Suc.IH [OF pk g1 \<open>bit c p\<close> g2] obtain c' m' where
        r: "resolve_discrepancy (int k - 1) c ?m1 = (int p, c', m')"
        and c': "\<forall>j. bit c' j = (bit c j \<and> j \<noteq> p)"
        and m': "\<forall>j. bit m' j = (bit ?m1 j \<and> (j \<le> p \<or> k \<le> j))"
        by (elim exE conjE)
      have "\<forall>j. bit m' j = (bit m j \<and> (j \<le> p \<or> Suc k \<le> j))"
      proof
        fix j
        have "bit m' j = (bit m j \<and> j \<noteq> k \<and> (j \<le> p \<or> k \<le> j))"
          by (simp add: m' bit_and_not_mask)
        then show "bit m' j = (bit m j \<and> (j \<le> p \<or> Suc k \<le> j))"
          using pk by (cases "j = k") auto
      qed
      with r c' True nc show ?thesis
        unfolding int_Suc_pred by (subst resolve_unfold) simp
    next
      case F: False
      have g2: "\<forall>j. p < j \<and> j < k \<longrightarrow> bit m j \<longrightarrow> \<not> bit c j"
        using Suc.prems by simp
      from Suc.IH [OF pk \<open>bit m p\<close> \<open>bit c p\<close> g2] obtain c' m' where
        r: "resolve_discrepancy (int k - 1) c m = (int p, c', m')"
        and c': "\<forall>j. bit c' j = (bit c j \<and> j \<noteq> p)"
        and m': "\<forall>j. bit m' j = (bit m j \<and> (j \<le> p \<or> k \<le> j))"
        by (elim exE conjE)
      have "\<forall>j. bit m' j = (bit m j \<and> (j \<le> p \<or> Suc k \<le> j))"
      proof
        fix j
        have "bit m' j = (bit m j \<and> (j \<le> p \<or> k \<le> j))"
          by (simp add: m')
        then show "bit m' j = (bit m j \<and> (j \<le> p \<or> Suc k \<le> j))"
          using F by (cases "j = k") auto
      qed
      with r c' F show ?thesis
        unfolding int_Suc_pred by (subst resolve_unfold) simp
    qed
  qed
qed

lemma first_is_top:
  assumes "walk_post ds 0 0 0 d m'"
  shows "insert d (below ds d) = set ds"
proof -
  from assms have d: "d \<in> set ds"
    and path: "\<forall>j<64. collision ds d j \<longrightarrow> bit d j"
    by (simp_all add: walk_post_def)
  have "later d e" if e: "e \<in> set ds" "e \<noteq> d" for e
  proof (rule ccontr)
    assume "\<not> later d e"
    with later_total [of d e] e have "later e d" by auto
    then obtain i where i: "i < 64" "same_prefix i d e" "bit e i" "\<not> bit d i"
      by (auto simp: later_def)
    then have "collision ds d i"
      using e by (auto simp: collision_def dest: same_prefix_sym)
    with path i show False by simp
  qed
  with d show ?thesis by (auto simp: below_def)
qed

lemma last_is_bottom:
  assumes "\<forall>j<64. bit m1 j = collision ds d j" and "\<forall>j<64. bit m1 j \<longrightarrow> \<not> bit d j"
  shows "below ds d = {}"
proof -
  have False if "e \<in> set ds" "later d e" for e
  proof -
    from that obtain k where k: "k < 64" "same_prefix k e d" "bit d k" "\<not> bit e k"
      by (auto simp: later_def)
    with that have "collision ds d k" by (auto simp: collision_def)
    with assms k show False by simp
  qed
  then show ?thesis by (auto simp: below_def)
qed

lemma next_is_successor:
  assumes d: "d \<in> set ds"
    and flags: "\<forall>j<64. bit m1 j = collision ds d j"
    and p: "p < 64" "bit m1 p" "bit d p"
    and top: "\<forall>j. p < j \<and> j < 64 \<longrightarrow> bit m1 j \<longrightarrow> \<not> bit d j"
    and c2: "\<forall>j. bit c2 j = (bit d j \<and> j \<noteq> p)"
    and m2: "\<forall>j. bit m2 j = (bit m1 j \<and> (j \<le> p \<or> 64 \<le> j))"
    and post: "walk_post ds 0 c2 m2 d2 m3"
  shows "below ds d = insert d2 (below ds d2) \<and> d2 \<notin> below ds d2 \<and> d \<noteq> d2 \<and> d \<notin> below ds d2"
proof -
  from post have d2: "d2 \<in> set ds"
    and path: "\<forall>j<64. collision ds d2 j \<longrightarrow> bit d2 j = (if bit m2 j then bit c2 j else True)"
    by (simp_all add: walk_post_def)
  have pre: "same_prefix j d2 d" if "j \<le> p" for j
    using that
  proof (induction j)
    case 0
    show ?case by simp
  next
    case (Suc j)
    then have j: "j < p" and sp: "same_prefix j d2 d" by simp_all
    have "bit d2 j = bit d j"
    proof (rule ccontr)
      assume ne: "bit d2 j \<noteq> bit d j"
      from j p have j64: "j < 64" by simp
      from ne sp d2 have "collision ds d j" by (auto simp: collision_def)
      with flags j64 have "bit m1 j" by simp
      with m2 j have mj: "bit m2 j" by simp
      from ne sp d have "collision ds d2 j"
        by (auto simp: collision_def dest: same_prefix_sym)
      with path j64 mj have "bit d2 j = bit c2 j" by simp
      with c2 j have "bit d2 j = bit d j" by simp
      with ne show False by simp
    qed
    with sp show ?case by (simp add: same_prefix_Suc)
  qed
  then have spp: "same_prefix p d2 d" by simp
  have d2p: "\<not> bit d2 p"
  proof
    assume one: "bit d2 p"
    from flags p have "collision ds d p" by simp
    then obtain e where e: "e \<in> set ds" "same_prefix p e d" "\<not> bit e p"
      using p by (auto simp: collision_def)
    with spp one have "collision ds d2 p"
      by (auto simp: collision_def same_prefix_def)
    with path p m2 have "bit d2 p = bit c2 p" by simp
    with c2 one show False by simp
  qed
  have high: "bit d2 j" if "p < j" "j < 64" "collision ds d2 j" for j
    using that path m2 by simp
  have l: "later d d2"
    using p spp d2p by (auto simp: later_def)
  have sub: "later d2 e" if e: "e \<in> set ds" "later d e" "e \<noteq> d2" for e
  proof -
    from e obtain k where k: "k < 64" "same_prefix k e d" "bit d k" "\<not> bit e k"
      by (auto simp: later_def)
    with e have "collision ds d k" by (auto simp: collision_def)
    with flags k have "bit m1 k" by simp
    with top k have kp: "k \<le> p" by (meson not_le_imp_less)
    show ?thesis
    proof (cases "k < p")
      case True
      with spp have "bit d2 k = bit d k" "same_prefix k d2 d"
        by (simp_all add: same_prefix_def)
      with k show ?thesis
        by (auto simp: later_def same_prefix_def)
    next
      case False
      with kp have kp': "k = p" by simp
      with k have "same_prefix p e d" by simp
      with spp have "same_prefix p e d2"
        by (blast intro: same_prefix_trans same_prefix_sym)
      with k kp' d2p have eq: "same_prefix (Suc p) e d2"
        by (simp add: same_prefix_Suc)
      show ?thesis
      proof (rule ccontr)
        assume "\<not> later d2 e"
        with later_total [of d2 e] e have "later e d2" by auto
        then obtain i where i: "i < 64" "same_prefix i d2 e" "bit e i" "\<not> bit d2 i"
          by (auto simp: later_def)
        with eq have "p < i"
          by (metis not_less_eq same_prefix_def not_le_imp_less less_Suc_eq_le)
        moreover from i e have "collision ds d2 i"
          by (auto simp: collision_def dest: same_prefix_sym)
        ultimately show False using high i by blast
      qed
    qed
  qed
  have "below ds d = insert d2 (below ds d2)"
  proof (intro set_eqI iffI)
    fix e assume "e \<in> below ds d"
    with sub show "e \<in> insert d2 (below ds d2)" by (auto simp: below_def)
  next
    fix e assume "e \<in> insert d2 (below ds d2)"
    with l d2 later_trans [OF l] show "e \<in> below ds d" by (auto simp: below_def)
  qed
  moreover have "d2 \<notin> below ds d2" by (simp add: below_def later_irrefl)
  moreover have "d \<noteq> d2" using l later_irrefl by auto
  moreover have "d \<notin> below ds d2"
    using later_trans [OF l] later_irrefl by (auto simp: below_def)
  ultimately show ?thesis by simp
qed

lemma pass_start_simps [simp]:
  "active (pass_start b) = roms b"
  "searching (pass_start b)"
  "position (pass_start b) = 0"
  "phase (pass_start b) = 0"
  "roms (pass_start b) = roms b"
  "resets (pass_start b) = Suc (resets b)"
  by (simp_all add: pass_start_def bus_reset_def bus_write_byte_def)

lemma walk_pass:
  assumes "roms b = ds" and "ds \<noteq> []"
  shows "\<exists>d m' b'. search_bits static_line 0 c m (pass_start b) = Inr (d, m', b') \<and>
           roms b' = ds \<and> resets b' = Suc (resets b) \<and> walk_post ds 0 c m d m'"
  using walk_static [of 0 64 "pass_start b" c ds m] assms by simp

lemma search_loop_pass:
  assumes "roms b \<noteq> []"
    and "search_bits static_line 0 c m (pass_start b) = Inr (d, m1, b3)"
    and "nextdev < length devs"
    and "resolve_discrepancy 63 d m1 = (r, c2, m2)"
  shows "search_loop static_line devs (int nextdev) c m False b
     = search_loop static_line (devs[nextdev := d]) (int (Suc nextdev)) c2 m2 (r < 0) b3"
proof -
  have ps: "snd (bus_write_byte 0xF0 (snd (bus_reset b))) = pass_start b"
    by (simp add: pass_start_def)
  have i: "int nextdev + 1 = int (Suc nextdev)" by simp
  show ?thesis
    apply (subst search_loop.simps)
    apply (simp only: i)
    using assms
    apply (simp add: static_line_def case_prod_unfold ps del: of_nat_Suc)
    apply (simp add: bus_reset_def)
    done
qed

lemma search_loop_done: "search_loop L devs n c m True b = Some (Inr (n, devs, b))"
  by (subst search_loop.simps) simp

lemma finite_below [simp]: "finite (below ds d)"
  by (simp add: below_def)

lemma search_loop_enumerates:
  assumes ds: "ds \<noteq> []"
  shows "roms b = ds \<Longrightarrow>
     search_bits static_line 0 c m (pass_start b) = Inr (d, m1, b3) \<Longrightarrow>
     card (below ds d) = n \<Longrightarrow> nextdev + n < length devs \<Longrightarrow>
     \<exists>out b'. search_loop static_line devs (int nextdev) c m False b
         = Some (Inr (int (nextdev + n + 1),
                      take nextdev devs @ out @ drop (nextdev + n + 1) devs, b')) \<and>
       length out = n + 1 \<and> distinct out \<and> set out = insert d (below ds d) \<and>
       resets b' = resets b + n + 1 \<and> roms b' = ds"
proof (induction n arbitrary: b c m d m1 b3 nextdev devs rule: less_induct)
  case (less n)
  note run = \<open>search_bits static_line 0 c m (pass_start b) = Inr (d, m1, b3)\<close>
  from walk_pass [OF \<open>roms b = ds\<close> ds, of c m] run
  have b3: "roms b3 = ds" "resets b3 = Suc (resets b)" and post: "walk_post ds 0 c m d m1"
    by auto
  from post have d: "d \<in> set ds" and flags: "\<forall>j<64. bit m1 j = collision ds d j"
    by (simp_all add: walk_post_def)
  from less.prems have nd: "nextdev < length devs" by simp
  obtain r c2 m2 where res: "resolve_discrepancy 63 d m1 = (r, c2, m2)"
    by (cases "resolve_discrepancy 63 d m1") auto
  from ds \<open>roms b = ds\<close> have "roms b \<noteq> []" by simp
  note pass = search_loop_pass [OF this run nd res]
  show ?case
  proof (cases "\<forall>j<64. bit m1 j \<longrightarrow> \<not> bit d j")
    case True
    from scan_none [OF True] res have r: "r = - 1" by simp
    from last_is_bottom [OF flags True] have emp: "below ds d = {}" .
    with less.prems have n: "n = 0" by simp
    have "search_loop static_line devs (int nextdev) c m False b
       = Some (Inr (int (Suc nextdev), devs[nextdev := d], b3))"
      by (simp only: pass r) (simp add: search_loop_done)
    moreover have "devs[nextdev := d] = take nextdev devs @ [d] @ drop (nextdev + 0 + 1) devs"
      using nd by (simp add: upd_conv_take_nth_drop)
    ultimately show ?thesis
      using n emp b3 \<open>roms b = ds\<close>
      by (intro exI [of _ "[d]"] exI [of _ b3]) simp
  next
    case False
    then have "\<exists>j. j < 64 \<and> bit m1 j \<and> bit d j" by blast
    then obtain p where p: "p < 64" "bit m1 p" "bit d p"
      and top: "\<forall>j. j < 64 \<and> bit m1 j \<and> bit d j \<longrightarrow> j \<le> p"
      using Nat.ex_has_greatest_nat [of "\<lambda>j. j < 64 \<and> bit m1 j \<and> bit d j" _ 64] by auto
    from top have top': "\<forall>j. p < j \<and> j < 64 \<longrightarrow> bit m1 j \<longrightarrow> \<not> bit d j"
      by (meson not_le)
    from scan_found [OF p(1) p(2) p(3) top'] res
    have r: "r = int p" and c2: "\<forall>j. bit c2 j = (bit d j \<and> j \<noteq> p)"
      and m2: "\<forall>j. bit m2 j = (bit m1 j \<and> (j \<le> p \<or> 64 \<le> j))"
      by auto
    from walk_pass [OF b3(1) ds, of c2 m2] obtain d2 m3 b4 where
      run2: "search_bits static_line 0 c2 m2 (pass_start b3) = Inr (d2, m3, b4)"
      and post2: "walk_post ds 0 c2 m2 d2 m3"
      by blast
    from next_is_successor [OF d flags p top' c2 m2 post2]
    have bel: "below ds d = insert d2 (below ds d2)" and fresh: "d2 \<notin> below ds d2"
      and ne: "d \<noteq> d2" "d \<notin> below ds d2"
      by simp_all
    define n2 where "n2 = card (below ds d2)"
    from bel fresh less.prems have n: "n = Suc n2"
      by (simp add: n2_def)
    have room: "Suc nextdev + n2 < length (devs[nextdev := d])"
      using less.prems n by simp
    have lt: "n2 < n" using n by simp
    have cd: "card (below ds d2) = n2" by (simp add: n2_def)
    from less.IH [OF lt b3(1) run2 cd room]
    obtain out2 b' where
      loop2: "search_loop static_line (devs[nextdev := d]) (int (Suc nextdev)) c2 m2 False b3
         = Some (Inr (int (Suc nextdev + n2 + 1),
              take (Suc nextdev) (devs[nextdev := d]) @ out2 @
                drop (Suc nextdev + n2 + 1) (devs[nextdev := d]), b'))"
      and out2: "length out2 = n2 + 1" "distinct out2" "set out2 = insert d2 (below ds d2)"
      and b': "resets b' = resets b3 + n2 + 1" "roms b' = ds"
      by (elim exE conjE)
    have notneg: "(r < 0) = False" using r by simp
    have t: "take (Suc nextdev) (devs[nextdev := d]) = take nextdev devs @ [d]"
      using nd by (simp add: take_Suc_conv_app_nth)
    have dr: "drop (Suc nextdev + n2 + 1) (devs[nextdev := d]) = drop (nextdev + n + 1) devs"
      using n by simp
    have "search_loop static_line devs (int nextdev) c m False b
       = Some (Inr (int (nextdev + n + 1),
              take nextdev devs @ (d # out2) @ drop (nextdev + n + 1) devs, b'))"
      unfolding pass notneg loop2 t dr using n by simp
    moreover have "length (d # out2) = n + 1" using out2 n by simp
    moreover have "distinct (d # out2)" using out2 ne by simp
    moreover have "set (d # out2) = insert d (below ds d)" using out2 bel by simp
    moreover have "resets b' = resets b + n + 1" using b' b3 n by simp
    ultimately show ?thesis
      using b' by (intro exI [of _ "d # out2"] exI [of _ b']) simp
  qed
qed

lemma trie_branches_empty: "trie_branches k [] = 0"
  by (subst trie_branches.simps) simp

lemma trie_branches_count:
  "64 - k = n \<Longrightarrow> k \<le> 64 \<Longrightarrow> distinct ds \<Longrightarrow> ds \<noteq> [] \<Longrightarrow>
   (\<forall>d\<in>set ds. \<forall>e\<in>set ds. same_prefix k d e) \<Longrightarrow>
   trie_branches k ds + 1 = length ds"
proof (induction n arbitrary: k ds)
  case 0
  then have k: "k = 64" by simp
  from "0.prems" k have "\<forall>d\<in>set ds. d = hd ds"
    by (simp add: same_prefix_64)
  with "0.prems" have "set ds = {hd ds}" by (cases ds) auto
  then have "card (set ds) = 1" by simp
  with "0.prems" have "length ds = 1" by (simp add: distinct_card)
  moreover have "trie_branches k ds = 0"
    using k by (subst trie_branches.simps) simp
  ultimately show ?case by simp
next
  case (Suc n)
  then have k: "k < 64" and n: "64 - Suc k = n" and k': "Suc k \<le> 64" by simp_all
  let ?zs = "filter (\<lambda>d. \<not> bit d k) ds"
  let ?os = "filter (\<lambda>d. bit d k) ds"
  have unfold: "trie_branches k ds =
      (if ?zs \<noteq> [] \<and> ?os \<noteq> [] then 1 else 0) + trie_branches (Suc k) ?zs
        + trie_branches (Suc k) ?os"
    using k Suc.prems by (subst trie_branches.simps) (simp add: Let_def)
  have len: "length ?os + length ?zs = length ds"
    by (rule sum_length_filter_compl)
  have pz: "\<forall>d\<in>set ?zs. \<forall>e\<in>set ?zs. same_prefix (Suc k) d e"
    using Suc.prems by (simp add: same_prefix_Suc)
  have po: "\<forall>d\<in>set ?os. \<forall>e\<in>set ?os. same_prefix (Suc k) d e"
    using Suc.prems by (simp add: same_prefix_Suc)
  have dz: "distinct ?zs" and dos: "distinct ?os"
    using Suc.prems by simp_all
  have iz: "trie_branches (Suc k) ?zs + 1 = length ?zs" if "?zs \<noteq> []"
    using Suc.IH [OF n k' dz that pz] .
  have io: "trie_branches (Suc k) ?os + 1 = length ?os" if "?os \<noteq> []"
    using Suc.IH [OF n k' dos that po] .
  consider (both) "?zs \<noteq> []" "?os \<noteq> []" | (z) "?zs = []" | (o) "?os = []"
    by blast
  then show ?case
  proof cases
    case both
    with iz io len show ?thesis by (simp add: unfold)
  next
    case z
    with len Suc.prems have "?os \<noteq> []" by auto
    with io z len show ?thesis by (simp add: unfold trie_branches_empty)
  next
    case o
    with len Suc.prems have "?zs \<noteq> []" by auto
    with iz o len show ?thesis by (simp add: unfold trie_branches_empty)
  qed
qed


text \<open>
  Claim C8.  On a static line with a non-empty set of distinct ROM codes, and an array
  \<open>devs\<close> with room for them, \<open>oneWire_search_rom\<close> returns the number of devices and
  has written every code exactly once at the front of \<open>devs\<close>; the number of passes, each
  begun by a reset, is the number of branch points of the trie of the codes plus one.  In
  particular two devices take two passes.
\<close>

theorem search_rom_enumerates_devices:
  assumes "ds \<noteq> []" and "distinct ds" and "length ds \<le> length devs"
  shows "\<exists>out b'.
     oneWire_search_rom static_line devs (idle_bus ds)
       = Some (Inr (int (length ds), out @ drop (length ds) devs, b')) \<and>
     mset out = mset ds \<and>
     resets b' = trie_branches 0 ds + 1 \<and> trie_branches 0 ds + 1 = length ds"
proof -
  let ?b = "idle_bus ds"
  have rb: "roms ?b = ds" and r0: "resets ?b = 0"
    by (simp_all add: idle_bus_def)
  from walk_pass [OF rb assms(1), of 0 0] obtain d m1 b3 where
    run: "search_bits static_line 0 0 0 (pass_start ?b) = Inr (d, m1, b3)"
    and post: "walk_post ds 0 0 0 d m1"
    by blast
  from first_is_top [OF post] have all: "insert d (below ds d) = set ds" .
  have "d \<notin> below ds d" by (simp add: below_def later_irrefl)
  then have "card (insert d (below ds d)) = Suc (card (below ds d))" by simp
  with all assms(2) have n: "Suc (card (below ds d)) = length ds"
    by (simp add: distinct_card)
  define n where "n = card (below ds d)"
  from n have len: "length ds = n + 1" by (simp add: n_def)
  have room: "0 + n < length devs" using len assms(3) by simp
  have cd: "card (below ds d) = n" by (simp add: n_def)
  from search_loop_enumerates [OF assms(1) rb run cd room]
  obtain out b' where
    loop: "search_loop static_line devs (int 0) 0 0 False ?b
       = Some (Inr (int (0 + n + 1), take 0 devs @ out @ drop (0 + n + 1) devs, b'))"
    and out: "length out = n + 1" "distinct out" "set out = insert d (below ds d)"
    and b': "resets b' = resets ?b + n + 1" "roms b' = ds"
    by (elim exE conjE)
  have "mset out = mset ds"
    using out all assms(2) by (simp add: set_eq_iff_mset_eq_distinct [symmetric])
  moreover have tb: "trie_branches 0 ds + 1 = length ds"
    using trie_branches_count [of 0 64 ds] assms by simp
  moreover have "resets b' = trie_branches 0 ds + 1"
    using b' r0 len tb by simp
  moreover have "oneWire_search_rom static_line devs ?b
       = Some (Inr (int (length ds), out @ drop (length ds) devs, b'))"
    using loop len by (simp add: oneWire_search_rom_def static_line_def)
  ultimately show ?thesis by blast
qed

theorem search_rom_enumerates_devices_witness:
  "\<exists>out b'.
     oneWire_search_rom static_line [0, 0]
         (idle_bus [0x7A000000C0FFEE28, 0x7A000000C0FFEF28])
       = Some (Inr (2, out @ [], b')) \<and>
     mset out = mset [0x7A000000C0FFEE28, 0x7A000000C0FFEF28] \<and>
     resets b' = 2"
  using search_rom_enumerates_devices
    [of "[0x7A000000C0FFEE28, 0x7A000000C0FFEF28]" "[0, 0]"]
  by (simp, elim exE conjE) (intro exI conjI, assumption, assumption, simp)

text \<open>
  Claim C9.  When no presence pulse answers the first reset, \<open>oneWire_search_rom\<close>
  returns 0, which is none of the error codes, and leaves \<open>devs\<close> as it was.
\<close>

theorem search_rom_empty_bus:
  "\<not> fst (resetBB L (initBB L b)) \<Longrightarrow>
   (\<exists>r. oneWire_search_rom L devs b = Some (Inr (r, devs, snd (resetBB L (initBB L b)))) \<and>
      r = 0 \<and>
      r \<notin> {ONE_WIRE_POSSIBLE_FIFO_OVERFLOW, ONE_WIRE_NOT_ENOUGH_TX_FIFO_SPACE,
            ONE_WIRE_NOT_ENOUGH_DATA_IN_RX_FIFO, ONE_WIRE_READ_CRC_FAILURE,
            ONE_WIRE_SEARCH_ROM_FAILURE, ONE_WIRE_ILLEGAL_DATA_SIZE_REQ})"
  by (subst oneWire_search_rom_def, subst search_loop.simps)
    (simp add: case_prod_unfold status_defs)

theorem search_rom_empty_bus_witness:
  "\<not> fst (resetBB static_line (initBB static_line (idle_bus []))) \<and>
   oneWire_search_rom static_line [0x11, 0x22] (idle_bus [])
     = Some (Inr (0, [0x11, 0x22],
         \<lparr>roms = [], active = [], searching = False, position = 0, phase = 0,
            resets = 1\<rparr>))"
  using search_rom_empty_bus [of static_line "idle_bus []" "[0x11, 0x22]"]
  by (simp add: bus_defs)

text \<open>
  Claim C10.  When the presence pulse is missing at the reset that begins a pass, whatever
  the number \<open>nextdev\<close> of codes already stored, the search returns 0 and \<open>devs\<close> keeps
  what the earlier passes wrote.
\<close>

theorem search_lost_presence_returns_zero:
  "\<not> fst (resetBB L b) \<Longrightarrow>
   search_loop L devs nextdev current discrepancy False b
     = Some (Inr (0, devs, snd (resetBB L b)))"
  by (subst search_loop.simps) (simp add: case_prod_unfold)

theorem search_lost_presence_returns_zero_witness:
  "oneWire_search_rom (fading_line (Suc 0)) [0, 0] (idle_bus [5, 7])
     = Some (Inr (0, [7, 0],
         \<lparr>roms = [5, 7], active = [5, 7], searching = False, position = 0, phase = 0,
            resets = 2\<rparr>))"
proof -
  let ?b2 = "\<lparr>roms = [5, 7], active = [5, 7], searching = True, position = 0, phase = 0,
    resets = Suc 0\<rparr>"
  let ?b3 = "\<lparr>roms = [5, 7], active = [7], searching = True, position = 64, phase = 0,
    resets = Suc 0\<rparr>"
  have start: "snd (bus_write_byte 0xF0 (snd (bus_reset (idle_bus [5, 7])))) = ?b2"
    and present: "fst (resetBB (fading_line (Suc 0)) (idle_bus [5, 7]))"
    by (simp_all add: fading_line_simps bus_reset_def bus_write_byte_def idle_bus_def)
  have walk: "search_bits (fading_line (Suc 0)) 0 0 0 ?b2 = Inr (7, 2, ?b3)"
    by (subst search_bits.simps, simp add: bus_defs)+
  have scan: "resolve_discrepancy 63 7 2 = (1, 5, 2)"
    by (subst resolve_discrepancy.simps, simp)+
  have absent: "\<not> fst (resetBB (fading_line (Suc 0)) ?b3)"
    by (simp add: fading_line_simps)
  have second: "search_loop (fading_line (Suc 0)) [7, 0] 1 5 2 False ?b3
     = Some (Inr (0, [7, 0], snd (resetBB (fading_line (Suc 0)) ?b3)))"
    using search_lost_presence_returns_zero [OF absent] .
  have first: "search_loop (fading_line (Suc 0)) [0, 0] 0 0 0 False (idle_bus [5, 7])
     = search_loop (fading_line (Suc 0)) [7, 0] 1 5 2 False ?b3"
    using present
    by (subst search_loop.simps)
      (simp add: case_prod_unfold fading_line_simps start walk scan)
  show ?thesis
    unfolding oneWire_search_rom_def fading_line_simps(1) first second
    by (simp add: fading_line_simps bus_reset_def)
qed

end
